theory Spec2Isabelle
  imports Main "HOL-Library.Multiset"
begin

section \<open>Data model (convex/schema.ts)\<close>

text \<open>
  A table is the list of its documents in creation order. A document is the pair of its
  \<open>_id\<close> and its fields. Identifiers are allocated from one counter of the database and
  are never reused. \<open>messageIndex\<close> is only ever written as \<open>messages.length\<close> or copied,
  so it is a natural number. A string is the list of its characters: \<open>length\<close> and
  \<open>take\<close> stand for \<open>.length\<close> and \<open>substring(0, n)\<close>. The \<open>userSettings\<close> table plays no
  part in the operations below and is left out.
\<close>

type_synonym docId = nat
type_synonym 'a table = "(docId \<times> 'a) list"

record apiKeyDoc =
  k_userId :: docId
  k_provider :: string
  k_apiKey :: string
  k_isActive :: bool

record conversationDoc =
  c_userId :: docId
  c_title :: string
  c_parentBranchId :: "docId option"
  c_branchFromMessageId :: "docId option"

record messageDoc =
  m_conversationId :: docId
  m_content :: string
  m_role :: string
  m_provider :: "string option"
  m_model :: "string option"
  m_messageIndex :: nat
  m_parentMessageId :: "docId option"

record branchDoc =
  b_userId :: docId
  b_parentConversationId :: docId
  b_branchConversationId :: docId
  b_branchFromMessageId :: docId
  b_name :: string
  b_isActive :: bool

record db =
  apiKeys :: "apiKeyDoc table"
  conversations :: "conversationDoc table"
  messages :: "messageDoc table"
  branches :: "branchDoc table"
  nextId :: docId

definition empty_db :: db where
  "empty_db = \<lparr>apiKeys = [], conversations = [], messages = [], branches = [], nextId = 0\<rparr>"

section \<open>Errors\<close>

text \<open>One constructor per \<open>throw\<close> of the source, plus the failures of the store and of
  \<open>fetch\<close>. \<open>FailedToGetResponse\<close> is the error rethrown by the \<open>catch\<close> of \<open>sendMessage\<close>; it
  carries the provider and the error it caught.\<close>

datatype error =
    NotAuthenticated
  | ConversationNotFound
  | ParentConversationNotFound
  | BranchMessageNotFound
  | ApiKeyNotFound
  | NoApiKeyFound string
  | ApiError nat string
  | GoogleApiError nat string
  | UnsupportedProvider string
  | FetchFailed
  | MalformedResponse
  | NonexistentDocument docId
  | FailedToGetResponse string error

section \<open>Store primitives (ctx.db)\<close>

definition db_get :: "docId \<Rightarrow> 'a table \<Rightarrow> 'a option" where
  "db_get i t = map_of t i"

text \<open>\<open>ctx.db.delete\<close> and \<open>ctx.db.patch\<close> throw on an identifier that has no document.\<close>

definition db_delete :: "docId \<Rightarrow> 'a table \<Rightarrow> error + 'a table" where
  "db_delete i t =
     (case map_of t i of
        None \<Rightarrow> Inl (NonexistentDocument i)
      | Some _ \<Rightarrow> Inr (filter (\<lambda>d. fst d \<noteq> i) t))"

definition db_patch :: "docId \<Rightarrow> ('a \<Rightarrow> 'a) \<Rightarrow> 'a table \<Rightarrow> error + 'a table" where
  "db_patch i f t =
     (case map_of t i of
        None \<Rightarrow> Inl (NonexistentDocument i)
      | Some _ \<Rightarrow> Inr (map (\<lambda>d. if fst d = i then (i, f (snd d)) else d) t))"

definition insert_apiKey :: "apiKeyDoc \<Rightarrow> db \<Rightarrow> docId \<times> db" where
  "insert_apiKey d s =
     (nextId s, s\<lparr>apiKeys := apiKeys s @ [(nextId s, d)], nextId := Suc (nextId s)\<rparr>)"

definition insert_conversation :: "conversationDoc \<Rightarrow> db \<Rightarrow> docId \<times> db" where
  "insert_conversation d s =
     (nextId s, s\<lparr>conversations := conversations s @ [(nextId s, d)], nextId := Suc (nextId s)\<rparr>)"

definition insert_message :: "messageDoc \<Rightarrow> db \<Rightarrow> docId \<times> db" where
  "insert_message d s =
     (nextId s, s\<lparr>messages := messages s @ [(nextId s, d)], nextId := Suc (nextId s)\<rparr>)"

definition insert_branch :: "branchDoc \<Rightarrow> db \<Rightarrow> docId \<times> db" where
  "insert_branch d s =
     (nextId s, s\<lparr>branches := branches s @ [(nextId s, d)], nextId := Suc (nextId s)\<rparr>)"

definition delete_message :: "docId \<Rightarrow> db \<Rightarrow> error + db" where
  "delete_message i s =
     (case db_delete i (messages s) of Inl e \<Rightarrow> Inl e | Inr t \<Rightarrow> Inr (s\<lparr>messages := t\<rparr>))"

definition delete_conversation :: "docId \<Rightarrow> db \<Rightarrow> error + db" where
  "delete_conversation i s =
     (case db_delete i (conversations s) of Inl e \<Rightarrow> Inl e | Inr t \<Rightarrow> Inr (s\<lparr>conversations := t\<rparr>))"

definition delete_branch :: "docId \<Rightarrow> db \<Rightarrow> error + db" where
  "delete_branch i s =
     (case db_delete i (branches s) of Inl e \<Rightarrow> Inl e | Inr t \<Rightarrow> Inr (s\<lparr>branches := t\<rparr>))"

definition delete_apiKey :: "docId \<Rightarrow> db \<Rightarrow> error + db" where
  "delete_apiKey i s =
     (case db_delete i (apiKeys s) of Inl e \<Rightarrow> Inl e | Inr t \<Rightarrow> Inr (s\<lparr>apiKeys := t\<rparr>))"

definition patch_conversation :: "docId \<Rightarrow> (conversationDoc \<Rightarrow> conversationDoc) \<Rightarrow> db \<Rightarrow> error + db" where
  "patch_conversation i f s =
     (case db_patch i f (conversations s) of Inl e \<Rightarrow> Inl e | Inr t \<Rightarrow> Inr (s\<lparr>conversations := t\<rparr>))"

definition patch_apiKey :: "docId \<Rightarrow> (apiKeyDoc \<Rightarrow> apiKeyDoc) \<Rightarrow> db \<Rightarrow> error + db" where
  "patch_apiKey i f s =
     (case db_patch i f (apiKeys s) of Inl e \<Rightarrow> Inl e | Inr t \<Rightarrow> Inr (s\<lparr>apiKeys := t\<rparr>))"

text \<open>Indexed queries. The index \<open>by_conversation\<close> is declared on
  \<open>["conversationId", "messageIndex"]\<close>: the documents of one conversation come back in
  ascending \<open>messageIndex\<close>, documents of equal index in creation order. \<open>by_parent\<close> and
  \<open>by_user\<close> have one field, so their results are in creation order.\<close>

definition messages_by_conversation :: "docId \<Rightarrow> db \<Rightarrow> messageDoc table" where
  "messages_by_conversation c s =
     sort_key (\<lambda>d. m_messageIndex (snd d)) (filter (\<lambda>d. m_conversationId (snd d) = c) (messages s))"

definition branches_by_parent :: "docId \<Rightarrow> db \<Rightarrow> branchDoc table" where
  "branches_by_parent c s = filter (\<lambda>d. b_parentConversationId (snd d) = c) (branches s)"

definition apiKeys_by_user :: "docId \<Rightarrow> db \<Rightarrow> apiKeyDoc table" where
  "apiKeys_by_user u s = filter (\<lambda>d. k_userId (snd d) = u) (apiKeys s)"

section \<open>convex/conversations.ts\<close>

text \<open>A mutation is a transaction: it returns its result and the new database, or an
  error, in which case the database stays as it was. The first argument of every
  operation is what \<open>getAuthUserId\<close> returns.\<close>

definition getConversation ::
  "docId option \<Rightarrow> docId \<Rightarrow> db \<Rightarrow> error + (conversationDoc \<times> messageDoc table)" where
  "getConversation auth conversationId s =
     (case auth of
        None \<Rightarrow> Inl NotAuthenticated
      | Some userId \<Rightarrow>
          (case db_get conversationId (conversations s) of
             None \<Rightarrow> Inl ConversationNotFound
           | Some conversation \<Rightarrow>
               if c_userId conversation \<noteq> userId then Inl ConversationNotFound
               else Inr (conversation, messages_by_conversation conversationId s)))"

definition createConversation ::
  "docId option \<Rightarrow> string \<Rightarrow> docId option \<Rightarrow> docId option \<Rightarrow> db \<Rightarrow> error + (docId \<times> db)" where
  "createConversation auth title parentBranchId branchFromMessageId s =
     (case auth of
        None \<Rightarrow> Inl NotAuthenticated
      | Some userId \<Rightarrow>
          Inr (insert_conversation
                 \<lparr>c_userId = userId, c_title = title, c_parentBranchId = parentBranchId,
                  c_branchFromMessageId = branchFromMessageId\<rparr> s))"

definition updateConversation :: "docId option \<Rightarrow> docId \<Rightarrow> string \<Rightarrow> db \<Rightarrow> error + db" where
  "updateConversation auth conversationId title s =
     (case auth of
        None \<Rightarrow> Inl NotAuthenticated
      | Some userId \<Rightarrow>
          (case db_get conversationId (conversations s) of
             None \<Rightarrow> Inl ConversationNotFound
           | Some conversation \<Rightarrow>
               if c_userId conversation \<noteq> userId then Inl ConversationNotFound
               else patch_conversation conversationId (\<lambda>c. c\<lparr>c_title := title\<rparr>) s))"

definition derived_title :: "string \<Rightarrow> string" where
  "derived_title content =
     (if length content > 50 then take 50 content @ ''...'' else content)"

definition addMessage ::
  "docId option \<Rightarrow> docId \<Rightarrow> string \<Rightarrow> string \<Rightarrow> string option \<Rightarrow> string option \<Rightarrow> db
     \<Rightarrow> error + (docId \<times> db)" where
  "addMessage auth conversationId content role provider model s =
     (case auth of
        None \<Rightarrow> Inl NotAuthenticated
      | Some userId \<Rightarrow>
          (case db_get conversationId (conversations s) of
             None \<Rightarrow> Inl ConversationNotFound
           | Some conversation \<Rightarrow>
               if c_userId conversation \<noteq> userId then Inl ConversationNotFound
               else
                 let messageIndex = length (messages_by_conversation conversationId s) in
                 (case (if messageIndex = 0 \<and> role = ''user''
                           \<and> c_title conversation = ''New Conversation''
                        then patch_conversation conversationId
                               (\<lambda>c. c\<lparr>c_title := derived_title content\<rparr>) s
                        else Inr s) of
                    Inl e \<Rightarrow> Inl e
                  | Inr s1 \<Rightarrow>
                      Inr (insert_message
                             \<lparr>m_conversationId = conversationId, m_content = content,
                              m_role = role, m_provider = provider, m_model = model,
                              m_messageIndex = messageIndex, m_parentMessageId = None\<rparr> s1))))"

text \<open>The loop \<open>for (const msg of ...) await ctx.db.insert("messages", ...)\<close> of
  \<open>createBranch\<close> and \<open>duplicateConversation\<close>.\<close>

fun copy_messages :: "docId \<Rightarrow> messageDoc table \<Rightarrow> db \<Rightarrow> db" where
  "copy_messages target [] s = s"
| "copy_messages target (msg # rest) s =
     copy_messages target rest
       (snd (insert_message
               \<lparr>m_conversationId = target, m_content = m_content (snd msg),
                m_role = m_role (snd msg), m_provider = m_provider (snd msg),
                m_model = m_model (snd msg), m_messageIndex = m_messageIndex (snd msg),
                m_parentMessageId = None\<rparr> s))"

definition createBranch ::
  "docId option \<Rightarrow> docId \<Rightarrow> docId \<Rightarrow> string \<Rightarrow> db \<Rightarrow> error + ((docId \<times> docId) \<times> db)" where
  "createBranch auth parentConversationId branchFromMessageId branchName s =
     (case auth of
        None \<Rightarrow> Inl NotAuthenticated
      | Some userId \<Rightarrow>
          (case db_get parentConversationId (conversations s) of
             None \<Rightarrow> Inl ParentConversationNotFound
           | Some parentConversation \<Rightarrow>
               if c_userId parentConversation \<noteq> userId then Inl ParentConversationNotFound
               else
                 (case db_get branchFromMessageId (messages s) of
                    None \<Rightarrow> Inl BranchMessageNotFound
                  | Some branchMessage \<Rightarrow>
                      if m_conversationId branchMessage \<noteq> parentConversationId
                      then Inl BranchMessageNotFound
                      else
                        let (branchConversationId, s1) =
                              insert_conversation
                                \<lparr>c_userId = userId,
                                 c_title = c_title parentConversation @ '' - '' @ branchName,
                                 c_parentBranchId = None,
                                 c_branchFromMessageId = Some branchFromMessageId\<rparr> s;
                            parentMessages = messages_by_conversation parentConversationId s1;
                            messagesToCopy =
                              sort_key (\<lambda>d. m_messageIndex (snd d))
                                (filter (\<lambda>msg. m_messageIndex (snd msg)
                                                  \<le> m_messageIndex branchMessage)
                                   parentMessages);
                            s2 = copy_messages branchConversationId messagesToCopy s1;
                            (branchId, s3) =
                              insert_branch
                                \<lparr>b_userId = userId,
                                 b_parentConversationId = parentConversationId,
                                 b_branchConversationId = branchConversationId,
                                 b_branchFromMessageId = branchFromMessageId,
                                 b_name = branchName, b_isActive = True\<rparr> s2
                        in Inr ((branchId, branchConversationId), s3))))"

definition getBranches :: "docId option \<Rightarrow> docId \<Rightarrow> db \<Rightarrow> error + branchDoc table" where
  "getBranches auth conversationId s =
     (case auth of
        None \<Rightarrow> Inl NotAuthenticated
      | Some userId \<Rightarrow> Inr (branches_by_parent conversationId s))"

text \<open>The loops of \<open>deleteConversation\<close>: deleting a list of messages one by one, and
  tearing down each branch record with its target conversation.\<close>

fun delete_messages :: "messageDoc table \<Rightarrow> db \<Rightarrow> error + db" where
  "delete_messages [] s = Inr s"
| "delete_messages (message # rest) s =
     (case delete_message (fst message) s of
        Inl e \<Rightarrow> Inl e
      | Inr s1 \<Rightarrow> delete_messages rest s1)"

fun delete_branches :: "branchDoc table \<Rightarrow> db \<Rightarrow> error + db" where
  "delete_branches [] s = Inr s"
| "delete_branches (branch # rest) s =
     (case delete_messages
             (messages_by_conversation (b_branchConversationId (snd branch)) s) s of
        Inl e \<Rightarrow> Inl e
      | Inr s1 \<Rightarrow>
          (case delete_conversation (b_branchConversationId (snd branch)) s1 of
             Inl e \<Rightarrow> Inl e
           | Inr s2 \<Rightarrow>
               (case delete_branch (fst branch) s2 of
                  Inl e \<Rightarrow> Inl e
                | Inr s3 \<Rightarrow> delete_branches rest s3)))"

definition deleteConversation :: "docId option \<Rightarrow> docId \<Rightarrow> db \<Rightarrow> error + db" where
  "deleteConversation auth conversationId s =
     (case auth of
        None \<Rightarrow> Inl NotAuthenticated
      | Some userId \<Rightarrow>
          (case db_get conversationId (conversations s) of
             None \<Rightarrow> Inl ConversationNotFound
           | Some conversation \<Rightarrow>
               if c_userId conversation \<noteq> userId then Inl ConversationNotFound
               else
                 (case delete_messages (messages_by_conversation conversationId s) s of
                    Inl e \<Rightarrow> Inl e
                  | Inr s1 \<Rightarrow>
                      (case delete_branches (branches_by_parent conversationId s1) s1 of
                         Inl e \<Rightarrow> Inl e
                       | Inr s2 \<Rightarrow> delete_conversation conversationId s2))))"

definition duplicateConversation :: "docId option \<Rightarrow> docId \<Rightarrow> db \<Rightarrow> error + (docId \<times> db)" where
  "duplicateConversation auth conversationId s =
     (case auth of
        None \<Rightarrow> Inl NotAuthenticated
      | Some userId \<Rightarrow>
          (case db_get conversationId (conversations s) of
             None \<Rightarrow> Inl ConversationNotFound
           | Some conversation \<Rightarrow>
               if c_userId conversation \<noteq> userId then Inl ConversationNotFound
               else
                 let (newConversationId, s1) =
                       insert_conversation
                         \<lparr>c_userId = userId, c_title = c_title conversation @ '' (Copy)'',
                          c_parentBranchId = None, c_branchFromMessageId = None\<rparr> s;
                     sortedMessages =
                       sort_key (\<lambda>d. m_messageIndex (snd d))
                         (messages_by_conversation conversationId s1)
                 in Inr (newConversationId, copy_messages newConversationId sortedMessages s1)))"

section \<open>convex/settings.ts\<close>

definition getApiKey ::
  "docId option \<Rightarrow> string \<Rightarrow> db \<Rightarrow> error + (docId \<times> apiKeyDoc) option" where
  "getApiKey auth provider s =
     (case auth of
        None \<Rightarrow> Inl NotAuthenticated
      | Some userId \<Rightarrow>
          Inr (case filter (\<lambda>d. k_isActive (snd d))
                      (filter (\<lambda>d. k_provider (snd d) = provider) (apiKeys_by_user userId s)) of
                 [] \<Rightarrow> None
               | apiKey # _ \<Rightarrow> Some apiKey))"

fun deactivate_keys :: "apiKeyDoc table \<Rightarrow> db \<Rightarrow> error + db" where
  "deactivate_keys [] s = Inr s"
| "deactivate_keys (key # rest) s =
     (case patch_apiKey (fst key) (\<lambda>k. k\<lparr>k_isActive := False\<rparr>) s of
        Inl e \<Rightarrow> Inl e
      | Inr s1 \<Rightarrow> deactivate_keys rest s1)"

definition saveApiKey :: "docId option \<Rightarrow> string \<Rightarrow> string \<Rightarrow> db \<Rightarrow> error + (docId \<times> db)" where
  "saveApiKey auth provider apiKey s =
     (case auth of
        None \<Rightarrow> Inl NotAuthenticated
      | Some userId \<Rightarrow>
          let existingKeys =
                filter (\<lambda>d. k_provider (snd d) = provider) (apiKeys_by_user userId s)
          in (case deactivate_keys existingKeys s of
                Inl e \<Rightarrow> Inl e
              | Inr s1 \<Rightarrow>
                  Inr (insert_apiKey
                         \<lparr>k_userId = userId, k_provider = provider, k_apiKey = apiKey,
                          k_isActive = True\<rparr> s1)))"

definition deleteApiKey :: "docId option \<Rightarrow> docId \<Rightarrow> db \<Rightarrow> error + db" where
  "deleteApiKey auth keyId s =
     (case auth of
        None \<Rightarrow> Inl NotAuthenticated
      | Some userId \<Rightarrow>
          (case db_get keyId (apiKeys s) of
             None \<Rightarrow> Inl ApiKeyNotFound
           | Some apiKey \<Rightarrow>
               if k_userId apiKey \<noteq> userId then Inl ApiKeyNotFound
               else delete_apiKey keyId s))"

section \<open>convex/aiProviders.ts\<close>

text \<open>The upstream HTTP API is a parameter \<open>fetch\<close>. A request is its URL, its headers and
  its JSON body (the constant temperature 0.7 is left out of the body). A response has
  \<open>ok\<close>, \<open>status\<close> and the text of its body; \<open>reply\<close> is what the parsed body holds at the
  path the adapter reads (\<open>choices[0].message.content\<close>, or
  \<open>candidates[0].content.parts[0].text\<close>), \<open>None\<close> when that read throws. \<open>fetch\<close> returns
  \<open>None\<close> when the promise rejects.\<close>

datatype body =
    ChatCompletion string "(string \<times> string) list" nat
  | GenerateContent "(string \<times> string) list" nat

record request =
  url :: string
  headers :: "(string \<times> string) list"
  body :: body

record response =
  ok :: bool
  status :: nat
  body_text :: string
  reply :: "string option"

type_synonym fetch = "request \<Rightarrow> response option"

definition PROVIDERS :: "(string \<times> string \<times> string list) list" where
  "PROVIDERS =
     [(''openai'', ''https://api.openai.com/v1'', [''gpt-4o-mini'', ''gpt-3.5-turbo'']),
      (''google'', ''https://generativelanguage.googleapis.com/v1beta'',
         [''gemini-2.0-flash'', ''gemini-1.5-flash'']),
      (''groq'', ''https://api.groq.com/openai/v1'',
         [''llama-3.1-8b-instant'', ''mixtral-8x7b-32768'', ''gemma2-9b-it'']),
      (''deepseek'', ''https://api.deepseek.com/v1'', [''deepseek-chat''])]"

definition baseURL :: "string \<Rightarrow> string" where
  "baseURL provider = (case map_of PROVIDERS provider of Some (u, _) \<Rightarrow> u | None \<Rightarrow> [])"

definition callOpenAICompatibleAPI ::
  "fetch \<Rightarrow> string \<Rightarrow> string \<Rightarrow> string \<Rightarrow> (string \<times> string) list \<Rightarrow> error + string" where
  "callOpenAICompatibleAPI fetch base apiKey model msgs =
     (case fetch \<lparr>url = base @ ''/chat/completions'',
                  headers = [(''Content-Type'', ''application/json''),
                             (''Authorization'', ''Bearer '' @ apiKey)],
                  body = ChatCompletion model msgs 2000\<rparr> of
        None \<Rightarrow> Inl FetchFailed
      | Some r \<Rightarrow>
          if \<not> ok r then Inl (ApiError (status r) (body_text r))
          else (case reply r of None \<Rightarrow> Inl MalformedResponse | Some content \<Rightarrow> Inr content))"

definition callGoogleAPI ::
  "fetch \<Rightarrow> string \<Rightarrow> string \<Rightarrow> (string \<times> string) list \<Rightarrow> error + string" where
  "callGoogleAPI fetch apiKey model msgs =
     (let contents =
            map (\<lambda>msg. (if fst msg = ''assistant'' then ''model'' else ''user'', snd msg)) msgs
      in case fetch \<lparr>url = ''https://generativelanguage.googleapis.com/v1beta/models/''
                             @ model @ '':generateContent?key='' @ apiKey,
                      headers = [(''Content-Type'', ''application/json'')],
                      body = GenerateContent contents 2000\<rparr> of
           None \<Rightarrow> Inl FetchFailed
         | Some r \<Rightarrow>
             if \<not> ok r then Inl (GoogleApiError (status r) (body_text r))
             else (case reply r of None \<Rightarrow> Inl MalformedResponse | Some t \<Rightarrow> Inr t))"

text \<open>The \<open>if / else if / else\<close> of \<open>sendMessage\<close> that selects the adapter.\<close>

definition dispatch ::
  "fetch \<Rightarrow> string \<Rightarrow> string \<Rightarrow> string \<Rightarrow> (string \<times> string) list \<Rightarrow> error + string" where
  "dispatch fetch provider apiKey model apiMessages =
     (if provider = ''openai'' \<or> provider = ''groq'' \<or> provider = ''deepseek''
      then callOpenAICompatibleAPI fetch (baseURL provider) apiKey model apiMessages
      else if provider = ''google''
      then callGoogleAPI fetch apiKey model apiMessages
      else Inl (UnsupportedProvider provider))"

text \<open>The history \<open>sendMessage\<close> hands to the adapter: the stored messages mapped to
  \<open>{role, content}\<close>, then \<open>push\<close> of the new user message.\<close>

definition apiMessages_of :: "messageDoc table \<Rightarrow> string \<Rightarrow> (string \<times> string) list" where
  "apiMessages_of msgs message =
     map (\<lambda>msg. (m_role (snd msg), m_content (snd msg))) msgs @ [(''user'', message)]"

text \<open>\<open>sendMessage\<close> is an action, not a transaction: each \<open>runQuery\<close> and \<open>runMutation\<close>
  commits on its own, so the database is returned with the error too.\<close>

definition sendMessage ::
  "fetch \<Rightarrow> docId option \<Rightarrow> docId \<Rightarrow> string \<Rightarrow> string \<Rightarrow> string \<Rightarrow> db
     \<Rightarrow> (error + string) \<times> db" where
  "sendMessage fetch auth conversationId message provider model s =
     (case auth of
        None \<Rightarrow> (Inl NotAuthenticated, s)
      | Some userId \<Rightarrow>
          (case getApiKey auth provider s of
             Inl e \<Rightarrow> (Inl e, s)
           | Inr None \<Rightarrow> (Inl (NoApiKeyFound provider), s)
           | Inr (Some apiKeyRecord) \<Rightarrow>
               (case addMessage auth conversationId message ''user'' None None s of
                  Inl e \<Rightarrow> (Inl e, s)
                | Inr (_, s1) \<Rightarrow>
                    (case getConversation auth conversationId s1 of
                       Inl e \<Rightarrow> (Inl e, s1)
                     | Inr (_, msgs) \<Rightarrow>
                         (case dispatch fetch provider (k_apiKey (snd apiKeyRecord)) model
                                 (apiMessages_of msgs message) of
                            Inl e \<Rightarrow> (Inl (FailedToGetResponse provider e), s1)
                          | Inr response \<Rightarrow>
                              (case addMessage auth conversationId response ''assistant''
                                      (Some provider) (Some model) s1 of
                                 Inl e \<Rightarrow> (Inl (FailedToGetResponse provider e), s1)
                               | Inr (_, s2) \<Rightarrow> (Inr response, s2)))))))"

text \<open>\<open>testApiKey\<close> has no \<open>else\<close> branch: for a provider that is neither of the two
  families the \<open>try\<close> block calls nothing and falls through to the success return. The
  result is \<open>success\<close> and, on failure, the error caught.\<close>

definition testApiKey :: "fetch \<Rightarrow> string \<Rightarrow> string \<Rightarrow> string \<Rightarrow> bool \<times> error option" where
  "testApiKey fetch provider apiKey model =
     (let testMessages = [(''user'', ''Hello, this is a test message.'')] in
      case (if provider = ''openai'' \<or> provider = ''groq'' \<or> provider = ''deepseek''
            then callOpenAICompatibleAPI fetch (baseURL provider) apiKey model testMessages
            else if provider = ''google''
            then callGoogleAPI fetch apiKey model testMessages
            else Inr []) of
        Inl e \<Rightarrow> (False, Some e)
      | Inr _ \<Rightarrow> (True, None))"

section \<open>Sequences of operations\<close>

text \<open>One constructor per mutation or action. A failed mutation leaves the database as it
  was; \<open>sendMessage\<close> keeps what its committed steps wrote.\<close>

datatype op =
    CreateConversation "docId option" string "docId option" "docId option"
  | UpdateConversation "docId option" docId string
  | AddMessage "docId option" docId string string "string option" "string option"
  | CreateBranch "docId option" docId docId string
  | DeleteConversation "docId option" docId
  | DuplicateConversation "docId option" docId
  | SaveApiKey "docId option" string string
  | DeleteApiKey "docId option" docId
  | SendMessage fetch "docId option" docId string string string

definition committed :: "error + ('a \<times> db) \<Rightarrow> db \<Rightarrow> db" where
  "committed r s = (case r of Inl _ \<Rightarrow> s | Inr (_, s') \<Rightarrow> s')"

definition committed' :: "error + db \<Rightarrow> db \<Rightarrow> db" where
  "committed' r s = (case r of Inl _ \<Rightarrow> s | Inr s' \<Rightarrow> s')"

fun apply_op :: "op \<Rightarrow> db \<Rightarrow> db" where
  "apply_op (CreateConversation auth title pb bm) s = committed (createConversation auth title pb bm s) s"
| "apply_op (UpdateConversation auth c title) s = committed' (updateConversation auth c title s) s"
| "apply_op (AddMessage auth c content role p m) s = committed (addMessage auth c content role p m s) s"
| "apply_op (CreateBranch auth c bm name) s = committed (createBranch auth c bm name s) s"
| "apply_op (DeleteConversation auth c) s = committed' (deleteConversation auth c s) s"
| "apply_op (DuplicateConversation auth c) s = committed (duplicateConversation auth c s) s"
| "apply_op (SaveApiKey auth p k) s = committed (saveApiKey auth p k s) s"
| "apply_op (DeleteApiKey auth k) s = committed' (deleteApiKey auth k s) s"
| "apply_op (SendMessage fetch auth c message p m) s = snd (sendMessage fetch auth c message p m s)"

definition run :: "op list \<Rightarrow> db \<Rightarrow> db" where
  "run ops s = fold apply_op ops s"


section \<open>Notions used in the properties\<close>

text \<open>The fields a copy preserves, the documents a copy loop inserts, and
  well-formedness of the store: identifiers are distinct and below the allocation
  counter, and so is the conversation every message refers to. \<open>targets_of\<close> is the set
  of conversations that the branch records rooted at a conversation point to.\<close>

definition message_fields ::
  "messageDoc \<Rightarrow> string \<times> string \<times> string option \<times> string option \<times> nat" where
  "message_fields d = (m_content d, m_role d, m_provider d, m_model d, m_messageIndex d)"

definition copy_of :: "docId \<Rightarrow> messageDoc \<Rightarrow> messageDoc" where
  "copy_of target d =
     \<lparr>m_conversationId = target, m_content = m_content d, m_role = m_role d,
      m_provider = m_provider d, m_model = m_model d, m_messageIndex = m_messageIndex d,
      m_parentMessageId = None\<rparr>"

definition copies :: "docId \<Rightarrow> docId \<Rightarrow> messageDoc table \<Rightarrow> messageDoc table" where
  "copies target n msgs = zip [n ..< n + length msgs] (map (\<lambda>msg. copy_of target (snd msg)) msgs)"

definition ids_ok :: "'a table \<Rightarrow> docId \<Rightarrow> bool" where
  "ids_ok t n \<longleftrightarrow> distinct (map fst t) \<and> (\<forall>i \<in> set (map fst t). i < n)"

definition wf_db :: "db \<Rightarrow> bool" where
  "wf_db s \<longleftrightarrow>
     ids_ok (apiKeys s) (nextId s) \<and> ids_ok (conversations s) (nextId s)
     \<and> ids_ok (messages s) (nextId s) \<and> ids_ok (branches s) (nextId s)
     \<and> (\<forall>d \<in> set (messages s). m_conversationId (snd d) < nextId s)"

definition targets_of :: "docId \<Rightarrow> db \<Rightarrow> docId set" where
  "targets_of c s = set (map (\<lambda>b. b_branchConversationId (snd b)) (branches_by_parent c s))"


text \<open>What the credential store is to do on a save, in the words of the specification:
  the credentials of that user and provider become inactive, the others stay.\<close>

definition deactivated :: "docId \<Rightarrow> string \<Rightarrow> apiKeyDoc table \<Rightarrow> apiKeyDoc table" where
  "deactivated u p t =
     map (\<lambda>d. if k_userId (snd d) = u \<and> k_provider (snd d) = p
               then (fst d, (snd d)\<lparr>k_isActive := False\<rparr>) else d) t"

definition active_keys :: "docId \<Rightarrow> string \<Rightarrow> db \<Rightarrow> apiKeyDoc table" where
  "active_keys u p s =
     filter (\<lambda>d. k_userId (snd d) = u \<and> k_provider (snd d) = p \<and> k_isActive (snd d)) (apiKeys s)"

text \<open>The \<open>messageIndex\<close> values of the messages of a conversation, and the invariants
  of the store.\<close>

definition indices :: "docId \<Rightarrow> db \<Rightarrow> nat list" where
  "indices c s =
     map (\<lambda>d. m_messageIndex (snd d)) (filter (\<lambda>d. m_conversationId (snd d) = c) (messages s))"

definition dense :: "db \<Rightarrow> bool" where
  "dense s \<longleftrightarrow> (\<forall>c. mset (indices c s) = mset [0 ..< length (indices c s)])"

definition single_active :: "db \<Rightarrow> bool" where
  "single_active s \<longleftrightarrow> (\<forall>u p. length (active_keys u p s) \<le> 1)"

definition consistent :: "db \<Rightarrow> bool" where
  "consistent s \<longleftrightarrow> wf_db s \<and> dense s \<and> single_active s"

section \<open>Concrete states and upstream behaviours used in the examples\<close>

text \<open>\<open>example_db\<close>: user 7 holds an active key for \<open>openai\<close> and one for the
  unsupported provider \<open>mistral\<close>, and owns the empty conversation 2. \<open>chat_db\<close>:
  conversation 2 with five messages. \<open>tree_db\<close>: \<open>chat_db\<close> after a branch of conversation 2
  at message 5, a branch of that branch, and one more conversation. \<open>echo_fetch\<close> answers
  with the history it received; \<open>failing_fetch\<close> answers 500.\<close>

definition example_db :: db where
  "example_db =
     \<lparr>apiKeys =
        [(0, \<lparr>k_userId = 7, k_provider = ''openai'', k_apiKey = ''sk-1'', k_isActive = True\<rparr>),
         (1, \<lparr>k_userId = 7, k_provider = ''mistral'', k_apiKey = ''sk-2'', k_isActive = True\<rparr>)],
      conversations =
        [(2, \<lparr>c_userId = 7, c_title = ''New Conversation'', c_parentBranchId = None,
               c_branchFromMessageId = None\<rparr>)],
      messages = [], branches = [], nextId = 3\<rparr>"

definition render_history :: "body \<Rightarrow> string" where
  "render_history b =
     concat (map (\<lambda>msg. fst msg @ '':'' @ snd msg @ '';'')
               (case b of ChatCompletion _ msgs _ \<Rightarrow> msgs | GenerateContent msgs _ \<Rightarrow> msgs))"

definition echo_fetch :: fetch where
  "echo_fetch req =
     Some \<lparr>ok = True, status = 200, body_text = [], reply = Some (render_history (body req))\<rparr>"

definition failing_fetch :: fetch where
  "failing_fetch req = Some \<lparr>ok = False, status = 500, body_text = ''overloaded'', reply = None\<rparr>"

definition chat_db :: db where
  "chat_db =
     \<lparr>apiKeys = [],
      conversations =
        [(2, \<lparr>c_userId = 7, c_title = ''Sorting'', c_parentBranchId = None,
               c_branchFromMessageId = None\<rparr>)],
      messages =
        [(3, \<lparr>m_conversationId = 2, m_content = ''a'', m_role = ''user'', m_provider = None,
               m_model = None, m_messageIndex = 0, m_parentMessageId = None\<rparr>),
         (4, \<lparr>m_conversationId = 2, m_content = ''b'', m_role = ''assistant'',
               m_provider = Some ''openai'', m_model = Some ''gpt-4o-mini'', m_messageIndex = 1,
               m_parentMessageId = None\<rparr>),
         (5, \<lparr>m_conversationId = 2, m_content = ''c'', m_role = ''user'', m_provider = None,
               m_model = None, m_messageIndex = 2, m_parentMessageId = None\<rparr>),
         (6, \<lparr>m_conversationId = 2, m_content = ''d'', m_role = ''assistant'',
               m_provider = Some ''openai'', m_model = Some ''gpt-4o-mini'', m_messageIndex = 3,
               m_parentMessageId = None\<rparr>),
         (7, \<lparr>m_conversationId = 2, m_content = ''e'', m_role = ''user'', m_provider = None,
               m_model = None, m_messageIndex = 4, m_parentMessageId = None\<rparr>)],
      branches = [], nextId = 8\<rparr>"

definition tree_db :: db where
  "tree_db =
     chat_db\<lparr>conversations := conversations chat_db @
        [(8, \<lparr>c_userId = 7, c_title = ''Sorting - alt'', c_parentBranchId = None,
               c_branchFromMessageId = Some 5\<rparr>),
         (13, \<lparr>c_userId = 7, c_title = ''Sorting - alt - deep'', c_parentBranchId = None,
                c_branchFromMessageId = Some 9\<rparr>),
         (16, \<lparr>c_userId = 7, c_title = ''Other'', c_parentBranchId = None,
                c_branchFromMessageId = None\<rparr>)],
      messages := messages chat_db @
        [(9, \<lparr>m_conversationId = 8, m_content = ''a'', m_role = ''user'', m_provider = None,
               m_model = None, m_messageIndex = 0, m_parentMessageId = None\<rparr>),
         (10, \<lparr>m_conversationId = 8, m_content = ''b'', m_role = ''assistant'',
                m_provider = Some ''openai'', m_model = Some ''gpt-4o-mini'', m_messageIndex = 1,
                m_parentMessageId = None\<rparr>),
         (11, \<lparr>m_conversationId = 8, m_content = ''c'', m_role = ''user'', m_provider = None,
                m_model = None, m_messageIndex = 2, m_parentMessageId = None\<rparr>),
         (14, \<lparr>m_conversationId = 13, m_content = ''a'', m_role = ''user'', m_provider = None,
                m_model = None, m_messageIndex = 0, m_parentMessageId = None\<rparr>)],
      branches :=
        [(12, \<lparr>b_userId = 7, b_parentConversationId = 2, b_branchConversationId = 8,
                b_branchFromMessageId = 5, b_name = ''alt'', b_isActive = True\<rparr>),
         (15, \<lparr>b_userId = 7, b_parentConversationId = 8, b_branchConversationId = 13,
                b_branchFromMessageId = 9, b_name = ''deep'', b_isActive = True\<rparr>)],
      nextId := 17\<rparr>"

section \<open>Properties\<close>

lemmas eval_defs =
  sendMessage_def getApiKey_def apiKeys_by_user_def example_db_def addMessage_def
  db_get_def patch_conversation_def db_patch_def insert_message_def getConversation_def
  messages_by_conversation_def apiMessages_of_def dispatch_def callOpenAICompatibleAPI_def
  callGoogleAPI_def echo_fetch_def failing_fetch_def render_history_def derived_title_def baseURL_def PROVIDERS_def

lemmas run_defs = run_def committed_def committed'_def

lemmas delete_defs = deleteConversation_def delete_message_def delete_conversation_def
  delete_branch_def db_delete_def branches_by_parent_def messages_by_conversation_def db_get_def

lemmas op_defs = run_def committed_def committed'_def createConversation_def addMessage_def
  createBranch_def saveApiKey_def insert_conversation_def insert_message_def insert_branch_def
  insert_apiKey_def patch_conversation_def patch_apiKey_def db_patch_def db_get_def
  messages_by_conversation_def apiKeys_by_user_def derived_title_def empty_db_def Let_def

lemma map_of_patched:
  "map_of (map (\<lambda>d. if fst d = i then (i, f (snd d)) else d) t) j =
     (if j = i then map_option f (map_of t i) else map_of t j)"
  by (induction t) auto

lemma patch_conversation_eq:
  "db_get i (conversations s) = Some c \<Longrightarrow>
   patch_conversation i f s =
     Inr (s\<lparr>conversations := map (\<lambda>d. if fst d = i then (i, f (snd d)) else d) (conversations s)\<rparr>)"
  by (simp add: patch_conversation_def db_patch_def db_get_def)

lemma addMessage_eq:
  assumes "db_get c (conversations s) = Some conv" and "c_userId conv = u"
  shows "addMessage (Some u) c content role p m s =
     Inr (nextId s,
          s\<lparr>conversations :=
               (if messages_by_conversation c s = [] \<and> role = ''user''
                   \<and> c_title conv = ''New Conversation''
                then map (\<lambda>d. if fst d = c then (c, (snd d)\<lparr>c_title := derived_title content\<rparr>) else d)
                       (conversations s)
                else conversations s),
             messages := messages s @
               [(nextId s, \<lparr>m_conversationId = c, m_content = content, m_role = role,
                            m_provider = p, m_model = m,
                            m_messageIndex = length (messages_by_conversation c s),
                            m_parentMessageId = None\<rparr>)],
             nextId := Suc (nextId s)\<rparr>)"
  using assms
  by (simp add: addMessage_def Let_def patch_conversation_eq insert_message_def)

text \<open>C9: a provider outside the registry is to fail with "unsupported provider", for
  \<open>testApiKey\<close> as a structured failure. \<open>testApiKey\<close> has no \<open>else\<close> branch, calls nothing
  for such a provider, and reports success: for the provider \<open>mistral\<close>, whatever the
  upstream, the key and the model, it returns \<open>success = true\<close> and no error.\<close>

theorem testApiKey_unknown_provider_succeeds:
  "testApiKey fetch ''mistral'' apiKey model = (True, None)"
  by (simp add: testApiKey_def)

text \<open>C1: the history handed to the adapter is to hold every message once. In a
  conversation with no message, user 7 sends \<open>hi\<close> to \<open>openai\<close>; the upstream echoes the
  history it receives. The reply shows two user messages \<open>hi\<close>: the one read back from the
  store and the one pushed after it. The store holds the user message once.\<close>

theorem sendMessage_history_repeats_user_message:
  "sendMessage echo_fetch (Some 7) 2 ''hi'' ''openai'' ''gpt-4o-mini'' example_db
     = (Inr ''user:hi;user:hi;'',
        example_db\<lparr>conversations :=
            [(2, \<lparr>c_userId = 7, c_title = ''hi'', c_parentBranchId = None, c_branchFromMessageId = None\<rparr>)],
          messages :=
            [(3, \<lparr>m_conversationId = 2, m_content = ''hi'', m_role = ''user'', m_provider = None,
                   m_model = None, m_messageIndex = 0, m_parentMessageId = None\<rparr>),
             (4, \<lparr>m_conversationId = 2, m_content = ''user:hi;user:hi;'', m_role = ''assistant'',
                   m_provider = Some ''openai'', m_model = Some ''gpt-4o-mini'', m_messageIndex = 1,
                   m_parentMessageId = None\<rparr>)],
          nextId := 5\<rparr>)"
  by (simp add: eval_defs Let_def)

lemma getApiKey_None:
  assumes "\<forall>d \<in> set (apiKeys s).
             \<not> (k_userId (snd d) = u \<and> k_provider (snd d) = provider \<and> k_isActive (snd d))"
  shows "getApiKey (Some u) provider s = Inr None"
proof -
  have "filter (\<lambda>d. k_isActive (snd d))
          (filter (\<lambda>d. k_provider (snd d) = provider) (apiKeys_by_user u s)) = []"
    using assms by (auto simp: apiKeys_by_user_def filter_empty_conv)
  then show ?thesis by (simp add: getApiKey_def)
qed

text \<open>C8: when the user has no active credential for the requested provider,
  \<open>sendMessage\<close> fails with "No API key found" and the database, so the message log, is
  unchanged.\<close>

theorem sendMessage_no_credential:
  assumes "\<forall>d \<in> set (apiKeys s).
             \<not> (k_userId (snd d) = u \<and> k_provider (snd d) = provider \<and> k_isActive (snd d))"
  shows "sendMessage fetch (Some u) c message provider model s = (Inl (NoApiKeyFound provider), s)"
  by (simp add: sendMessage_def getApiKey_None [OF assms])

theorem sendMessage_no_credential_witness:
  "sendMessage echo_fetch (Some 7) 2 ''hi'' ''google'' ''gemini-2.0-flash'' example_db
     = (Inl (NoApiKeyFound ''google''), example_db)"
proof -
  have h: "\<forall>d \<in> set (apiKeys example_db).
      \<not> (k_userId (snd d) = 7 \<and> k_provider (snd d) = ''google'' \<and> k_isActive (snd d))"
    by (simp add: example_db_def)
  show ?thesis
    using sendMessage_no_credential [OF h, of echo_fetch 2 "''hi''" "''gemini-2.0-flash''"]
    by simp
qed

lemma addMessage_InrD:
  assumes "addMessage (Some u) c content role p m s = Inr (i, s1)"
  shows "\<exists>conv. db_get c (conversations s) = Some conv \<and> c_userId conv = u"
  using assms by (auto simp: addMessage_def split: option.splits if_splits)

lemma messages_by_conversation_append_ne:
  "messages s' = messages s @ [(i, d)] \<Longrightarrow> m_conversationId d = c \<Longrightarrow>
   messages_by_conversation c s' \<noteq> []"
proof -
  assume a: "messages s' = messages s @ [(i, d)]" "m_conversationId d = c"
  have "length (messages_by_conversation c s') > 0"
    using a by (simp add: messages_by_conversation_def)
  then show ?thesis by auto
qed

lemma sendMessage_dispatch_failure:
  assumes "getApiKey (Some u) provider s = Inr (Some key)"
    and "addMessage (Some u) c message ''user'' None None s = Inr (i, s1)"
    and "dispatch fetch provider (k_apiKey (snd key)) model
           (apiMessages_of (messages_by_conversation c s1) message) = Inl e"
  shows "sendMessage fetch (Some u) c message provider model s
           = (Inl (FailedToGetResponse provider e), s1)
         \<and> messages s1 = messages s @
             [(i, \<lparr>m_conversationId = c, m_content = message, m_role = ''user'',
                   m_provider = None, m_model = None,
                   m_messageIndex = length (messages_by_conversation c s),
                   m_parentMessageId = None\<rparr>)]"
proof -
  obtain conv where cv: "db_get c (conversations s) = Some conv" "c_userId conv = u"
    using addMessage_InrD [OF assms(2)] by blast
  have conv1: "getConversation (Some u) c s1
                 = Inr (the (db_get c (conversations s1)), messages_by_conversation c s1)"
    using cv assms(2) addMessage_eq [OF cv, of message "''user''" None None]
    by (auto simp: getConversation_def db_get_def map_of_patched)
  show ?thesis
    using assms conv1 addMessage_eq [OF cv, of message "''user''" None None]
    by (auto simp: sendMessage_def)
qed







text \<open>C10: when the user's active credential is for a provider outside the supported
  set and the conversation is the user's, \<open>sendMessage\<close> appends the user message before it
  looks at the provider: the call fails with "Unsupported provider" (inside the error of
  the \<open>catch\<close>), and the log is the old one plus exactly that one user message, with no
  assistant message.\<close>

theorem sendMessage_unsupported_provider:
  assumes "getApiKey (Some u) provider s = Inr (Some key)"
    and "provider \<notin> {''openai'', ''google'', ''groq'', ''deepseek''}"
    and "db_get c (conversations s) = Some conv" and "c_userId conv = u"
  shows "\<exists>s1. sendMessage fetch (Some u) c message provider model s
           = (Inl (FailedToGetResponse provider (UnsupportedProvider provider)), s1)
         \<and> messages s1 = messages s @
             [(nextId s, \<lparr>m_conversationId = c, m_content = message, m_role = ''user'',
                   m_provider = None, m_model = None,
                   m_messageIndex = length (messages_by_conversation c s),
                   m_parentMessageId = None\<rparr>)]"
proof -
  obtain s1 where a: "addMessage (Some u) c message ''user'' None None s = Inr (nextId s, s1)"
    using addMessage_eq [OF assms(3,4), of message "''user''" None None] by blast
  have d: "dispatch fetch provider (k_apiKey (snd key)) model
           (apiMessages_of (messages_by_conversation c s1) message) = Inl (UnsupportedProvider provider)"
    using assms(2) by (simp add: dispatch_def)
  show ?thesis
    using sendMessage_dispatch_failure [OF assms(1) a d] by blast
qed

theorem sendMessage_unsupported_provider_witness:
  "\<exists>s1. sendMessage echo_fetch (Some 7) 2 ''hi'' ''mistral'' ''mistral-small'' example_db
           = (Inl (FailedToGetResponse ''mistral'' (UnsupportedProvider ''mistral'')), s1)
         \<and> messages s1 =
             [(3, \<lparr>m_conversationId = 2, m_content = ''hi'', m_role = ''user'',
                   m_provider = None, m_model = None, m_messageIndex = 0,
                   m_parentMessageId = None\<rparr>)]"
proof -
  have k: "getApiKey (Some 7) ''mistral'' example_db
             = Inr (Some (1, \<lparr>k_userId = 7, k_provider = ''mistral'', k_apiKey = ''sk-2'',
                               k_isActive = True\<rparr>))"
    by (simp add: eval_defs)
  have p: "''mistral'' \<notin> {''openai'', ''google'', ''groq'', ''deepseek''}" by simp
  have c: "db_get 2 (conversations example_db)
             = Some \<lparr>c_userId = 7, c_title = ''New Conversation'', c_parentBranchId = None,
                     c_branchFromMessageId = None\<rparr>"
    by (simp add: eval_defs)
  have o: "c_userId \<lparr>c_userId = 7, c_title = ''New Conversation'', c_parentBranchId = None,
                     c_branchFromMessageId = None\<rparr> = 7" by simp
  show ?thesis
    using sendMessage_unsupported_provider [OF k p c o, of echo_fetch "''hi''" "''mistral-small''"]
    by (simp add: eval_defs)
qed

text \<open>C4, amended: the title is derived at the conversation's first message only. An
  append to a conversation that is the user's succeeds; the title becomes the content
  (at most 50 characters) or its first 50 characters and \<open>...\<close> exactly when the
  conversation had no message, the role is \<open>user\<close> and the title was \<open>New Conversation\<close>,
  and otherwise stays; an append to a conversation that has a message changes no title;
  and after an append the conversation has a message.\<close>

theorem addMessage_title_rule:
  assumes "db_get c (conversations s) = Some conv" and "c_userId conv = u"
  shows "\<exists>s'. addMessage (Some u) c content role p m s = Inr (nextId s, s')
           \<and> db_get c (conversations s')
               = Some (if messages_by_conversation c s = [] \<and> role = ''user''
                          \<and> c_title conv = ''New Conversation''
                       then conv\<lparr>c_title := (if length content \<le> 50 then content
                                               else take 50 content @ ''...'')\<rparr>
                       else conv)
           \<and> (messages_by_conversation c s \<noteq> [] \<longrightarrow> conversations s' = conversations s)
           \<and> messages_by_conversation c s' \<noteq> []"
proof -
  obtain s' where a: "addMessage (Some u) c content role p m s = Inr (nextId s, s')"
    using addMessage_eq [OF assms, of content role p m] by blast
  have eq: "s' = s\<lparr>conversations :=
               (if messages_by_conversation c s = [] \<and> role = ''user''
                   \<and> c_title conv = ''New Conversation''
                then map (\<lambda>d. if fst d = c then (c, (snd d)\<lparr>c_title := derived_title content\<rparr>) else d)
                       (conversations s)
                else conversations s),
             messages := messages s @
               [(nextId s, \<lparr>m_conversationId = c, m_content = content, m_role = role,
                            m_provider = p, m_model = m,
                            m_messageIndex = length (messages_by_conversation c s),
                            m_parentMessageId = None\<rparr>)],
             nextId := Suc (nextId s)\<rparr>"
    using a addMessage_eq [OF assms, of content role p m] by simp
  have t: "db_get c (conversations s')
               = Some (if messages_by_conversation c s = [] \<and> role = ''user''
                          \<and> c_title conv = ''New Conversation''
                       then conv\<lparr>c_title := (if length content \<le> 50 then content
                                               else take 50 content @ ''...'')\<rparr>
                       else conv)"
    using assms(1) by (auto simp: eq db_get_def map_of_patched derived_title_def)
  have k: "messages_by_conversation c s \<noteq> [] \<longrightarrow> conversations s' = conversations s"
    by (simp add: eq)
  have n: "messages_by_conversation c s' \<noteq> []"
  proof (rule messages_by_conversation_append_ne)
    show "messages s' = messages s @
               [(nextId s, \<lparr>m_conversationId = c, m_content = content, m_role = role,
                            m_provider = p, m_model = m,
                            m_messageIndex = length (messages_by_conversation c s),
                            m_parentMessageId = None\<rparr>)]"
      by (simp add: eq)
  qed simp
  show ?thesis using a t k n by blast
qed

theorem addMessage_title_rule_witness:
  "\<exists>s'. addMessage (Some 7) 2 ''Explain quicksort'' ''user'' None None example_db = Inr (3, s')
      \<and> db_get 2 (conversations s')
          = Some \<lparr>c_userId = 7, c_title = ''Explain quicksort'', c_parentBranchId = None,
                  c_branchFromMessageId = None\<rparr>
      \<and> messages_by_conversation 2 s' \<noteq> []"
proof -
  have c: "db_get 2 (conversations example_db)
             = Some \<lparr>c_userId = 7, c_title = ''New Conversation'', c_parentBranchId = None,
                     c_branchFromMessageId = None\<rparr>"
    by (simp add: eval_defs)
  have o: "c_userId \<lparr>c_userId = 7, c_title = ''New Conversation'', c_parentBranchId = None,
                     c_branchFromMessageId = None\<rparr> = 7" by simp
  show ?thesis
    using addMessage_title_rule [OF c o, of "''Explain quicksort''" "''user''" None None]
    by (simp add: eval_defs)
qed

text \<open>C4 as stated fails: in a conversation titled \<open>New Conversation\<close> an assistant
  message is appended, then a user message \<open>hi\<close>. This is the first user-role append
  and the title is still the default, yet the title stays \<open>New Conversation\<close>.\<close>

theorem title_not_derived_counterexample:
  "run [AddMessage (Some 7) 2 ''Welcome'' ''assistant'' None None,
        AddMessage (Some 7) 2 ''hi'' ''user'' None None] example_db
     = example_db\<lparr>messages :=
          [(3, \<lparr>m_conversationId = 2, m_content = ''Welcome'', m_role = ''assistant'',
                 m_provider = None, m_model = None, m_messageIndex = 0,
                 m_parentMessageId = None\<rparr>),
           (4, \<lparr>m_conversationId = 2, m_content = ''hi'', m_role = ''user'',
                 m_provider = None, m_model = None, m_messageIndex = 1,
                 m_parentMessageId = None\<rparr>)],
        nextId := 5\<rparr>
   \<and> db_get 2 (conversations (run [AddMessage (Some 7) 2 ''Welcome'' ''assistant'' None None,
        AddMessage (Some 7) 2 ''hi'' ''user'' None None] example_db))
     = Some \<lparr>c_userId = 7, c_title = ''New Conversation'', c_parentBranchId = None,
                  c_branchFromMessageId = None\<rparr>"
  by (simp add: eval_defs run_defs Let_def)

lemma copies_Nil: "copies target n [] = []"
  by (simp add: copies_def)

lemma copies_Cons:
  "copies target n (msg # rest) = (n, copy_of target (snd msg)) # copies target (Suc n) rest"
  by (simp add: copies_def upt_conv_Cons del: upt_Suc)

lemma copy_messages_eq:
  "copy_messages target msgs s =
     s\<lparr>messages := messages s @ copies target (nextId s) msgs,
       nextId := nextId s + length msgs\<rparr>"
proof (induction msgs arbitrary: s)
  case Nil
  show ?case by (simp add: copies_Nil)
next
  case (Cons msg rest)
  show ?case
    by (simp add: Cons.IH copies_Cons insert_message_def copy_of_def)
qed

lemma messagesToCopy_eq:
  "sort_key (\<lambda>d. m_messageIndex (snd d))
     (filter P (messages_by_conversation c s)) = filter P (messages_by_conversation c s)"
  by (simp add: messages_by_conversation_def sort_key_id_if_sorted sorted_filter)

lemma sortedMessages_eq:
  "sort_key (\<lambda>d. m_messageIndex (snd d)) (messages_by_conversation c s)
     = messages_by_conversation c s"
  by (simp add: messages_by_conversation_def sort_key_id_if_sorted)

lemma messages_by_conversation_upd:
  "messages_by_conversation c (s\<lparr>conversations := cs\<rparr>) = messages_by_conversation c s"
  "messages_by_conversation c (s\<lparr>branches := bs\<rparr>) = messages_by_conversation c s"
  "messages_by_conversation c (s\<lparr>apiKeys := ks\<rparr>) = messages_by_conversation c s"
  "messages_by_conversation c (s\<lparr>nextId := n\<rparr>) = messages_by_conversation c s"
  by (simp_all add: messages_by_conversation_def)

lemma createBranch_eq:
  assumes "createBranch (Some u) p bm name s = Inr ((bid, bc), s')"
  shows "\<exists>parent bmsg. db_get p (conversations s) = Some parent \<and> c_userId parent = u
           \<and> db_get bm (messages s) = Some bmsg \<and> m_conversationId bmsg = p
           \<and> bc = nextId s
           \<and> bid = Suc (nextId s) + length (filter (\<lambda>msg. m_messageIndex (snd msg) \<le> m_messageIndex bmsg)
                                       (messages_by_conversation p s))
           \<and> s' = s\<lparr>conversations := conversations s @
                       [(nextId s, \<lparr>c_userId = u, c_title = c_title parent @ '' - '' @ name,
                                    c_parentBranchId = None, c_branchFromMessageId = Some bm\<rparr>)],
                     messages := messages s @
                       copies (nextId s) (Suc (nextId s))
                         (filter (\<lambda>msg. m_messageIndex (snd msg) \<le> m_messageIndex bmsg)
                            (messages_by_conversation p s)),
                     branches := branches s @
                       [(bid, \<lparr>b_userId = u, b_parentConversationId = p,
                               b_branchConversationId = nextId s, b_branchFromMessageId = bm,
                               b_name = name, b_isActive = True\<rparr>)],
                     nextId := Suc bid\<rparr>"
  using assms
  by (auto simp: createBranch_def Let_def split_def messages_by_conversation_upd
      messagesToCopy_eq copy_messages_eq insert_branch_def insert_conversation_def
      split: option.splits if_splits)

lemma map_fst_copies: "map fst (copies target n msgs) = [n ..< n + length msgs]"
  by (simp add: copies_def)

lemma map_snd_copies: "map snd (copies target n msgs) = map (\<lambda>msg. copy_of target (snd msg)) msgs"
  by (simp add: copies_def)

lemma set_copies_conv:
  assumes "d \<in> set (copies target n msgs)"
  shows "m_conversationId (snd d) = target"
proof -
  have "snd d \<in> set (map snd (copies target n msgs))"
    using assms by simp
  then show ?thesis
    by (auto simp: map_snd_copies copy_of_def)
qed

lemma filter_copies_same:
  "filter (\<lambda>d. m_conversationId (snd d) = target) (copies target n msgs) = copies target n msgs"
  by (simp add: filter_id_conv set_copies_conv)

lemma filter_copies_other:
  "c \<noteq> target \<Longrightarrow> filter (\<lambda>d. m_conversationId (snd d) = c) (copies target n msgs) = []"
  by (auto simp: filter_empty_conv dest: set_copies_conv)

lemma message_fields_copy: "message_fields (copy_of target d) = message_fields d"
  by (simp add: message_fields_def copy_of_def)

lemma db_get_ids: "db_get i t = Some d \<Longrightarrow> i \<in> set (map fst t)"
  by (auto simp: db_get_def dest: map_of_SomeD intro: rev_image_eqI)

lemma wf_no_future_messages:
  "wf_db s \<Longrightarrow> filter (\<lambda>d. m_conversationId (snd d) = nextId s) (messages s) = []"
  by (auto simp: wf_db_def filter_empty_conv)

text \<open>C2: a successful \<open>createBranch\<close> on a well-formed database. The messages of the
  new conversation, in the order they were inserted, carry the content, role, provider,
  model and \<open>messageIndex\<close> of exactly the parent's messages whose index is at most the
  branch point's, in ascending index; their identifiers are new and all message
  identifiers stay distinct; the new conversation's identifier is new; every old
  conversation and message is still there unchanged, and the parent's messages are the
  same.\<close>

theorem createBranch_copies_prefix:
  assumes "createBranch (Some u) p bm name s = Inr ((bid, bc), s')" and "wf_db s"
  shows "\<exists>branchPoint. db_get bm (messages s) = Some branchPoint
           \<and> map (\<lambda>d. message_fields (snd d))
                 (filter (\<lambda>d. m_conversationId (snd d) = bc) (messages s'))
               = map (\<lambda>d. message_fields (snd d))
                   (filter (\<lambda>d. m_messageIndex (snd d) \<le> m_messageIndex branchPoint)
                      (messages_by_conversation p s))
           \<and> sorted (map (\<lambda>d. m_messageIndex (snd d))
                 (filter (\<lambda>d. m_conversationId (snd d) = bc) (messages s')))
           \<and> (\<forall>d \<in> set (filter (\<lambda>d. m_conversationId (snd d) = bc) (messages s')).
                 fst d \<notin> set (map fst (messages s)))
           \<and> distinct (map fst (messages s'))
           \<and> bc \<notin> set (map fst (conversations s))
           \<and> (\<exists>c. conversations s' = conversations s @ [(bc, c)])
           \<and> filter (\<lambda>d. m_conversationId (snd d) \<noteq> bc) (messages s') = messages s
           \<and> messages_by_conversation p s' = messages_by_conversation p s"
proof -
  obtain parent bmsg where
    par: "db_get p (conversations s) = Some parent"
    and bm: "db_get bm (messages s) = Some bmsg"
    and bc: "bc = nextId s"
    and s': "s' = s\<lparr>conversations := conversations s @
                       [(nextId s, \<lparr>c_userId = u, c_title = c_title parent @ '' - '' @ name,
                                    c_parentBranchId = None, c_branchFromMessageId = Some bm\<rparr>)],
                     messages := messages s @
                       copies (nextId s) (Suc (nextId s))
                         (filter (\<lambda>msg. m_messageIndex (snd msg) \<le> m_messageIndex bmsg)
                            (messages_by_conversation p s)),
                     branches := branches s @
                       [(bid, \<lparr>b_userId = u, b_parentConversationId = p,
                               b_branchConversationId = nextId s, b_branchFromMessageId = bm,
                               b_name = name, b_isActive = True\<rparr>)],
                     nextId := Suc bid\<rparr>"
    using createBranch_eq [OF assms(1)] by blast
  let ?M = "filter (\<lambda>msg. m_messageIndex (snd msg) \<le> m_messageIndex bmsg)
              (messages_by_conversation p s)"
  have pn: "p \<noteq> nextId s"
    using db_get_ids [OF par] assms(2) by (auto simp: wf_db_def ids_ok_def)
  have old: "\<And>d. d \<in> set (messages s) \<Longrightarrow> m_conversationId (snd d) \<noteq> nextId s"
    using assms(2) by (auto simp: wf_db_def)
  have new: "filter (\<lambda>d. m_conversationId (snd d) = bc) (messages s')
               = copies (nextId s) (Suc (nextId s)) ?M"
    by (simp add: s' bc wf_no_future_messages [OF assms(2)] filter_copies_same)
  have srt: "sorted (map (\<lambda>d. m_messageIndex (snd d)) ?M)"
    by (simp add: messages_by_conversation_def sorted_filter)
  have idx: "map (\<lambda>d. m_messageIndex (snd d)) (copies (nextId s) (Suc (nextId s)) ?M)
               = map (\<lambda>d. m_messageIndex (snd d)) ?M"
  proof -
    have "map (\<lambda>d. m_messageIndex (snd d)) (copies (nextId s) (Suc (nextId s)) ?M)
            = map m_messageIndex (map snd (copies (nextId s) (Suc (nextId s)) ?M))"
      by simp
    also have "\<dots> = map (\<lambda>d. m_messageIndex (snd d)) ?M"
      by (simp add: map_snd_copies copy_of_def)
    finally show ?thesis .
  qed
  have fld: "map (\<lambda>d. message_fields (snd d)) (copies (nextId s) (Suc (nextId s)) ?M)
               = map (\<lambda>d. message_fields (snd d)) ?M"
  proof -
    have "map (\<lambda>d. message_fields (snd d)) (copies (nextId s) (Suc (nextId s)) ?M)
            = map message_fields (map snd (copies (nextId s) (Suc (nextId s)) ?M))"
      by simp
    also have "\<dots> = map (\<lambda>d. message_fields (snd d)) ?M"
      by (simp add: map_snd_copies message_fields_copy)
    finally show ?thesis .
  qed
  have fresh: "\<forall>d \<in> set (copies (nextId s) (Suc (nextId s)) ?M). fst d \<notin> set (map fst (messages s))"
  proof
    fix d assume "d \<in> set (copies (nextId s) (Suc (nextId s)) ?M)"
    then have "fst d \<in> set (map fst (copies (nextId s) (Suc (nextId s)) ?M))" by simp
    then have "nextId s < fst d" by (simp add: map_fst_copies del: upt_Suc)
    then show "fst d \<notin> set (map fst (messages s))"
      using assms(2) by (auto simp: wf_db_def ids_ok_def)
  qed
  have dist: "distinct (map fst (messages s'))"
    using assms(2) fresh
    by (auto simp: s' wf_db_def ids_ok_def map_fst_copies simp del: upt_Suc)
  have bcn: "bc \<notin> set (map fst (conversations s))"
    using assms(2) by (auto simp: bc wf_db_def ids_ok_def)
  have keep: "filter (\<lambda>d. m_conversationId (snd d) \<noteq> bc) (messages s') = messages s"
    using old by (auto simp: s' bc filter_id_conv filter_empty_conv dest: set_copies_conv)
  have par_msgs: "messages_by_conversation p s' = messages_by_conversation p s"
    using pn by (simp add: s' messages_by_conversation_def filter_copies_other)
  show ?thesis
    using bm new srt idx fld fresh dist bcn keep par_msgs
    by (auto simp: s' bc)
qed

theorem createBranch_copies_prefix_witness:
  "map (\<lambda>d. message_fields (snd d))
     (filter (\<lambda>d. m_conversationId (snd d) = 8)
        (messages (run [CreateBranch (Some 7) 2 5 ''alt''] chat_db)))
     = [(''a'', ''user'', None, None, 0),
        (''b'', ''assistant'', Some ''openai'', Some ''gpt-4o-mini'', 1),
        (''c'', ''user'', None, None, 2)]"
proof -
  define s' where "s' = run [CreateBranch (Some 7) 2 5 ''alt''] chat_db"
  have e: "createBranch (Some 7) 2 5 ''alt'' chat_db = Inr ((12, 8), s')"
    unfolding s'_def
    by (simp add: run_defs createBranch_def chat_db_def db_get_def insert_conversation_def
      messages_by_conversation_def insert_message_def insert_branch_def Let_def)
  have w: "wf_db chat_db"
    by (simp add: wf_db_def ids_ok_def chat_db_def)
  obtain bp where bp: "db_get 5 (messages chat_db) = Some bp"
    and m: "map (\<lambda>d. message_fields (snd d))
              (filter (\<lambda>d. m_conversationId (snd d) = 8) (messages s'))
            = map (\<lambda>d. message_fields (snd d))
                (filter (\<lambda>d. m_messageIndex (snd d) \<le> m_messageIndex bp)
                   (messages_by_conversation 2 chat_db))"
    using createBranch_copies_prefix [OF e w] by blast
  have "bp = \<lparr>m_conversationId = 2, m_content = ''c'', m_role = ''user'', m_provider = None,
               m_model = None, m_messageIndex = 2, m_parentMessageId = None\<rparr>"
    using bp by (simp add: chat_db_def db_get_def)
  then show ?thesis
    using m unfolding s'_def
    by (simp add: chat_db_def messages_by_conversation_def message_fields_def)
qed

lemma db_delete_InrD:
  "db_delete i t = Inr t' \<Longrightarrow> t' = filter (\<lambda>d. fst d \<noteq> i) t"
  by (auto simp: db_delete_def split: option.splits)

lemma db_delete_present:
  "i \<in> set (map fst t) \<Longrightarrow> db_delete i t = Inr (filter (\<lambda>d. fst d \<noteq> i) t)"
  by (auto simp: db_delete_def map_of_eq_None_iff split: option.splits)

lemma filter_ids_conv:
  assumes "distinct (map fst t)"
  shows "filter (\<lambda>d. fst d \<notin> set (map fst (filter P t))) t = filter (\<lambda>d. \<not> P d) t"
proof (rule filter_cong [OF refl])
  fix d assume d: "d \<in> set t"
  have inj: "inj_on fst (set t)" using assms by (simp add: distinct_map)
  show "(fst d \<notin> set (map fst (filter P t))) = (\<not> P d)"
  proof
    assume "fst d \<notin> set (map fst (filter P t))"
    then show "\<not> P d" using d by force
  next
    assume np: "\<not> P d"
    show "fst d \<notin> set (map fst (filter P t))"
    proof
      assume "fst d \<in> set (map fst (filter P t))"
      then obtain e where e: "e \<in> set t" "P e" "fst e = fst d" by auto
      then have "e = d" using inj d by (auto dest: inj_onD)
      then show False using e np by simp
    qed
  qed
qed

lemma ids_filter_neq:
  "set (map fst (filter (\<lambda>d. fst d \<noteq> i) t)) = set (map fst t) - {i}"
  by auto

lemma delete_messages_eq:
  assumes "set (map fst ms) \<subseteq> set (map fst (messages s))" and "distinct (map fst ms)"
  shows "delete_messages ms s
           = Inr (s\<lparr>messages := filter (\<lambda>d. fst d \<notin> set (map fst ms)) (messages s)\<rparr>)"
  using assms
proof (induction ms arbitrary: s)
  case Nil
  show ?case by simp
next
  case (Cons m rest)
  let ?s1 = "s\<lparr>messages := filter (\<lambda>d. fst d \<noteq> fst m) (messages s)\<rparr>"
  have step: "delete_message (fst m) s = Inr ?s1"
    using Cons.prems(1) by (simp add: delete_message_def db_delete_present)
  have a: "fst m \<notin> set (map fst rest)" using Cons.prems(2) by simp
  have b: "set (map fst rest) \<subseteq> set (map fst (messages s))" using Cons.prems(1) by simp
  have m1: "messages ?s1 = filter (\<lambda>d. fst d \<noteq> fst m) (messages s)" by simp
  have sub: "set (map fst rest) \<subseteq> set (map fst (messages ?s1))"
    unfolding m1 ids_filter_neq using a b by blast
  have dist: "distinct (map fst rest)" using Cons.prems(2) by simp
  have "delete_messages (m # rest) s = delete_messages rest ?s1"
    by (simp add: step)
  also have "\<dots> = Inr (?s1\<lparr>messages := filter (\<lambda>d. fst d \<notin> set (map fst rest)) (messages ?s1)\<rparr>)"
    by (rule Cons.IH [OF sub dist])
  also have "\<dots> = Inr (s\<lparr>messages := filter (\<lambda>d. fst d \<notin> set (map fst (m # rest))) (messages s)\<rparr>)"
    by (auto intro: filter_cong)
  finally show ?case .
qed

lemma delete_messages_by_conversation:
  assumes "distinct (map fst (messages s))"
  shows "delete_messages (messages_by_conversation c s) s
           = Inr (s\<lparr>messages := filter (\<lambda>d. m_conversationId (snd d) \<noteq> c) (messages s)\<rparr>)"
proof -
  let ?P = "\<lambda>d. m_conversationId (snd d) = c"
  have ids: "set (map fst (messages_by_conversation c s)) = set (map fst (filter ?P (messages s)))"
    by (simp add: messages_by_conversation_def)
  have sub: "set (map fst (messages_by_conversation c s)) \<subseteq> set (map fst (messages s))"
    unfolding ids by auto
  have "distinct (map fst (filter ?P (messages s)))"
    using assms by (rule distinct_map_filter)
  then have dist: "distinct (map fst (messages_by_conversation c s))"
    by (simp add: messages_by_conversation_def distinct_map)
  show ?thesis
    unfolding delete_messages_eq [OF sub dist] ids filter_ids_conv [OF assms] ..
qed

lemma delete_conversation_InrD:
  "delete_conversation i s = Inr s' \<Longrightarrow>
   s' = s\<lparr>conversations := filter (\<lambda>d. fst d \<noteq> i) (conversations s)\<rparr>"
  by (auto simp: delete_conversation_def dest: db_delete_InrD split: sum.splits)

lemma delete_branch_InrD:
  "delete_branch i s = Inr s' \<Longrightarrow>
   s' = s\<lparr>branches := filter (\<lambda>d. fst d \<noteq> i) (branches s)\<rparr>"
  by (auto simp: delete_branch_def dest: db_delete_InrD split: sum.splits)

lemma delete_branches_InrD:
  assumes "delete_branches bs s = Inr s'" and "distinct (map fst (messages s))"
  shows "s' = s\<lparr>conversations :=
                   filter (\<lambda>d. fst d \<notin> set (map (\<lambda>b. b_branchConversationId (snd b)) bs))
                     (conversations s),
                 messages :=
                   filter (\<lambda>d. m_conversationId (snd d)
                                 \<notin> set (map (\<lambda>b. b_branchConversationId (snd b)) bs))
                     (messages s),
                 branches := filter (\<lambda>d. fst d \<notin> set (map fst bs)) (branches s)\<rparr>"
  using assms
proof (induction bs arbitrary: s)
  case Nil
  then show ?case by simp
next
  case (Cons b rest)
  let ?t = "b_branchConversationId (snd b)"
  let ?s1 = "s\<lparr>messages := filter (\<lambda>d. m_conversationId (snd d) \<noteq> ?t) (messages s)\<rparr>"
  have d1: "delete_messages (messages_by_conversation ?t s) s = Inr ?s1"
    by (rule delete_messages_by_conversation [OF Cons.prems(2)])
  obtain s2 s3 where c2: "delete_conversation ?t ?s1 = Inr s2"
    and b3: "delete_branch (fst b) s2 = Inr s3"
    and r: "delete_branches rest s3 = Inr s'"
    using Cons.prems(1) d1 by (auto split: sum.splits)
  have s2: "s2 = ?s1\<lparr>conversations := filter (\<lambda>d. fst d \<noteq> ?t) (conversations s)\<rparr>"
    using delete_conversation_InrD [OF c2] by simp
  have s3: "s3 = s2\<lparr>branches := filter (\<lambda>d. fst d \<noteq> fst b) (branches s)\<rparr>"
    using delete_branch_InrD [OF b3] by (simp add: s2)
  have dist3: "distinct (map fst (messages s3))"
    using Cons.prems(2) by (simp add: s3 s2 distinct_map_filter)
  show ?case
    unfolding Cons.IH [OF r dist3]
    by (auto simp: s3 s2 intro!: filter_cong)
qed

lemma deleteConversation_InrD:
  assumes "deleteConversation (Some u) c s = Inr s'" and "wf_db s"
  shows "conversations s'
           = filter (\<lambda>d. fst d \<noteq> c \<and> fst d \<notin> targets_of c s) (conversations s)"
    and "messages s'
           = filter (\<lambda>d. m_conversationId (snd d) \<noteq> c
                         \<and> m_conversationId (snd d) \<notin> targets_of c s) (messages s)"
    and "branches s' = filter (\<lambda>d. b_parentConversationId (snd d) \<noteq> c) (branches s)"
    and "apiKeys s' = apiKeys s" and "nextId s' = nextId s"
proof -
  have dm: "distinct (map fst (messages s))" and db: "distinct (map fst (branches s))"
    using assms(2) by (simp_all add: wf_db_def ids_ok_def)
  let ?s1 = "s\<lparr>messages := filter (\<lambda>d. m_conversationId (snd d) \<noteq> c) (messages s)\<rparr>"
  let ?bs = "branches_by_parent c s"
  have d1: "delete_messages (messages_by_conversation c s) s = Inr ?s1"
    by (rule delete_messages_by_conversation [OF dm])
  have bp: "branches_by_parent c ?s1 = ?bs"
    by (simp add: branches_by_parent_def)
  obtain s2 where b2: "delete_branches ?bs ?s1 = Inr s2"
    and c3: "delete_conversation c s2 = Inr s'"
    using assms(1) d1 bp
    by (auto simp: deleteConversation_def split: option.splits if_splits sum.splits)
  have dist1: "distinct (map fst (messages ?s1))"
    using dm by (simp add: distinct_map_filter)
  have br: "filter (\<lambda>d. fst d \<notin> set (map fst ?bs)) (branches s)
              = filter (\<lambda>d. b_parentConversationId (snd d) \<noteq> c) (branches s)"
    unfolding branches_by_parent_def by (rule filter_ids_conv [OF db])
  show "conversations s'
           = filter (\<lambda>d. fst d \<noteq> c \<and> fst d \<notin> targets_of c s) (conversations s)"
    unfolding delete_conversation_InrD [OF c3] delete_branches_InrD [OF b2 dist1]
    by (auto simp: targets_of_def intro!: filter_cong)
  show "messages s'
           = filter (\<lambda>d. m_conversationId (snd d) \<noteq> c
                         \<and> m_conversationId (snd d) \<notin> targets_of c s) (messages s)"
    unfolding delete_conversation_InrD [OF c3] delete_branches_InrD [OF b2 dist1]
    by (auto simp: targets_of_def intro!: filter_cong)
  show "branches s' = filter (\<lambda>d. b_parentConversationId (snd d) \<noteq> c) (branches s)"
    unfolding delete_conversation_InrD [OF c3] delete_branches_InrD [OF b2 dist1]
    using br by simp
  show "apiKeys s' = apiKeys s" and "nextId s' = nextId s"
    unfolding delete_conversation_InrD [OF c3] delete_branches_InrD [OF b2 dist1]
    by simp_all
qed

lemma messages_by_conversation_empty_iff:
  "messages_by_conversation c s = [] \<longleftrightarrow> (\<forall>d \<in> set (messages s). m_conversationId (snd d) \<noteq> c)"
proof -
  have "messages_by_conversation c s = [] \<longleftrightarrow> length (messages_by_conversation c s) = 0"
    by simp
  also have "\<dots> \<longleftrightarrow> filter (\<lambda>d. m_conversationId (snd d) = c) (messages s) = []"
    by (simp add: messages_by_conversation_def)
  also have "\<dots> \<longleftrightarrow> (\<forall>d \<in> set (messages s). m_conversationId (snd d) \<noteq> c)"
    by (simp add: filter_empty_conv)
  finally show ?thesis .
qed

text \<open>C5: a successful \<open>deleteConversation\<close> on a well-formed database. The
  conversation has no message left and is gone; every branch record rooted at it is gone,
  with its target conversation and the target's messages; what remains is exactly every
  other conversation, every message of another conversation and every branch record with
  another parent, unchanged, so a branch record rooted at a deleted child stays.\<close>

theorem deleteConversation_cascade:
  assumes "deleteConversation (Some u) c s = Inr s'" and "wf_db s"
  shows "messages_by_conversation c s' = []
       \<and> c \<notin> set (map fst (conversations s'))
       \<and> (\<forall>b \<in> set (branches_by_parent c s).
             b \<notin> set (branches s')
             \<and> b_branchConversationId (snd b) \<notin> set (map fst (conversations s'))
             \<and> messages_by_conversation (b_branchConversationId (snd b)) s' = [])
       \<and> conversations s'
           = filter (\<lambda>d. fst d \<noteq> c \<and> fst d \<notin> targets_of c s) (conversations s)
       \<and> messages s'
           = filter (\<lambda>d. m_conversationId (snd d) \<noteq> c
                         \<and> m_conversationId (snd d) \<notin> targets_of c s) (messages s)
       \<and> branches s' = filter (\<lambda>d. b_parentConversationId (snd d) \<noteq> c) (branches s)
       \<and> apiKeys s' = apiKeys s
       \<and> (\<forall>b \<in> set (branches s).
             b_parentConversationId (snd b) \<in> targets_of c s
             \<and> b_parentConversationId (snd b) \<noteq> c \<longrightarrow> b \<in> set (branches s'))"
proof -
  note eqs = deleteConversation_InrD [OF assms]
  have own: "messages_by_conversation c s' = []"
    by (simp add: messages_by_conversation_empty_iff eqs(2))
  have gone: "c \<notin> set (map fst (conversations s'))"
    by (auto simp: eqs(1))
  have kids: "\<forall>b \<in> set (branches_by_parent c s).
             b \<notin> set (branches s')
             \<and> b_branchConversationId (snd b) \<notin> set (map fst (conversations s'))
             \<and> messages_by_conversation (b_branchConversationId (snd b)) s' = []"
  proof
    fix b assume b: "b \<in> set (branches_by_parent c s)"
    then have t: "b_branchConversationId (snd b) \<in> targets_of c s"
      by (simp add: targets_of_def)
    have p: "b_parentConversationId (snd b) = c"
      using b by (simp add: branches_by_parent_def)
    have 1: "b \<notin> set (branches s')" using p by (simp add: eqs(3))
    have 2: "b_branchConversationId (snd b) \<notin> set (map fst (conversations s'))"
      using t by (auto simp: eqs(1))
    have 3: "messages_by_conversation (b_branchConversationId (snd b)) s' = []"
      using t by (auto simp: messages_by_conversation_empty_iff eqs(2))
    show "b \<notin> set (branches s')
             \<and> b_branchConversationId (snd b) \<notin> set (map fst (conversations s'))
             \<and> messages_by_conversation (b_branchConversationId (snd b)) s' = []"
      using 1 2 3 by simp
  qed
  have grand: "\<forall>b \<in> set (branches s).
             b_parentConversationId (snd b) \<in> targets_of c s
             \<and> b_parentConversationId (snd b) \<noteq> c \<longrightarrow> b \<in> set (branches s')"
    by (simp add: eqs(3))
  show ?thesis
    using own gone kids grand eqs by blast
qed

lemma tree_db_run: "tree_db = run [CreateBranch (Some 7) 2 5 ''alt'', CreateBranch (Some 7) 8 9 ''deep'',
            CreateConversation (Some 7) ''Other'' None None] chat_db"
  by (simp add: tree_db_def run_defs createBranch_def createConversation_def chat_db_def db_get_def insert_conversation_def
      messages_by_conversation_def insert_message_def insert_branch_def Let_def)

theorem deleteConversation_cascade_witness:
  "map fst (conversations (run [DeleteConversation (Some 7) 2] tree_db)) = [13, 16]
   \<and> map fst (messages (run [DeleteConversation (Some 7) 2] tree_db)) = [14]
   \<and> map fst (branches (run [DeleteConversation (Some 7) 2] tree_db)) = [15]"
proof -
  define s' where "s' = run [DeleteConversation (Some 7) 2] tree_db"
  have e: "deleteConversation (Some 7) 2 tree_db = Inr s'"
    unfolding s'_def by (simp add: run_defs delete_defs tree_db_def chat_db_def)
  have w: "wf_db tree_db"
    by (simp add: wf_db_def ids_ok_def tree_db_def chat_db_def)
  have t: "targets_of 2 tree_db = {8}"
    by (simp add: targets_of_def branches_by_parent_def tree_db_def chat_db_def)
  show ?thesis
    using deleteConversation_cascade [OF e w]
    unfolding s'_def [symmetric] t
    by (simp add: tree_db_def chat_db_def)
qed

lemma ids_ok_filter: "ids_ok t n \<Longrightarrow> ids_ok (filter P t) n"
  by (auto simp: ids_ok_def distinct_map_filter)

lemma ids_ok_mono: "ids_ok t n \<Longrightarrow> n \<le> m \<Longrightarrow> ids_ok t m"
  by (auto simp: ids_ok_def)

lemma ids_ok_same_ids: "map fst t' = map fst t \<Longrightarrow> ids_ok t n \<Longrightarrow> ids_ok t' n"
  by (simp add: ids_ok_def)

lemma ids_ok_snoc: "ids_ok t n \<Longrightarrow> n \<le> m \<Longrightarrow> ids_ok (t @ [(m, d)]) (Suc m)"
  by (auto simp: ids_ok_def)

lemma ids_ok_copies:
  "ids_ok t n \<Longrightarrow> n \<le> m \<Longrightarrow> ids_ok (t @ copies c m msgs) (m + length msgs)"
  by (auto simp: ids_ok_def map_fst_copies simp del: upt_Suc)

lemma map_fst_patched:
  "map fst (map (\<lambda>d. if fst d = i then (i, f (snd d)) else d) t) = map fst t"
  by (induction t) auto

lemma wf_dbD:
  assumes "wf_db s"
  shows "ids_ok (apiKeys s) (nextId s)" and "ids_ok (conversations s) (nextId s)"
    and "ids_ok (messages s) (nextId s)" and "ids_ok (branches s) (nextId s)"
  using assms by (simp_all add: wf_db_def)

lemma wf_refs: "wf_db s \<Longrightarrow> d \<in> set (messages s) \<Longrightarrow> m_conversationId (snd d) < nextId s"
  by (simp add: wf_db_def)

lemma wf_dbI:
  assumes "ids_ok (apiKeys s) (nextId s)" and "ids_ok (conversations s) (nextId s)"
    and "ids_ok (messages s) (nextId s)" and "ids_ok (branches s) (nextId s)"
    and "\<And>d. d \<in> set (messages s) \<Longrightarrow> m_conversationId (snd d) < nextId s"
  shows "wf_db s"
  using assms by (simp add: wf_db_def)

lemma wf_empty_db: "wf_db empty_db"
  by (simp add: wf_db_def ids_ok_def empty_db_def)

lemma wf_createConversation:
  assumes "wf_db s" and "createConversation auth title pb bm s = Inr (i, s')"
  shows "wf_db s'"
proof -
  obtain d where s': "s' = s\<lparr>conversations := conversations s @ [(nextId s, d)],
                               nextId := Suc (nextId s)\<rparr>"
    using assms(2)
    by (auto simp: createConversation_def insert_conversation_def split: option.splits)
  note w = wf_dbD [OF assms(1)]
  show ?thesis
  proof (rule wf_dbI)
    show "ids_ok (apiKeys s') (nextId s')" using w(1) by (simp add: s' ids_ok_mono)
    show "ids_ok (conversations s') (nextId s')" using w(2) by (simp add: s' ids_ok_snoc)
    show "ids_ok (messages s') (nextId s')" using w(3) by (simp add: s' ids_ok_mono)
    show "ids_ok (branches s') (nextId s')" using w(4) by (simp add: s' ids_ok_mono)
    show "m_conversationId (snd d) < nextId s'" if "d \<in> set (messages s')" for d
      using that wf_refs [OF assms(1), of d] by (simp add: s')
  qed
qed

lemma updateConversation_InrD:
  assumes "updateConversation auth c title s = Inr s'"
  shows "\<exists>cs. s' = s\<lparr>conversations := cs\<rparr> \<and> map fst cs = map fst (conversations s)"
  using assms
  by (auto simp: updateConversation_def patch_conversation_def db_patch_def map_fst_patched
      split: option.splits if_splits)

lemma wf_conversations_upd:
  assumes "wf_db s" and "map fst cs = map fst (conversations s)"
  shows "wf_db (s\<lparr>conversations := cs\<rparr>)"
proof (rule wf_dbI)
  note w = wf_dbD [OF assms(1)]
  show "ids_ok (apiKeys (s\<lparr>conversations := cs\<rparr>)) (nextId (s\<lparr>conversations := cs\<rparr>))"
    using w(1) by simp
  show "ids_ok (conversations (s\<lparr>conversations := cs\<rparr>)) (nextId (s\<lparr>conversations := cs\<rparr>))"
    using w(2) assms(2) by (simp add: ids_ok_same_ids)
  show "ids_ok (messages (s\<lparr>conversations := cs\<rparr>)) (nextId (s\<lparr>conversations := cs\<rparr>))"
    using w(3) by simp
  show "ids_ok (branches (s\<lparr>conversations := cs\<rparr>)) (nextId (s\<lparr>conversations := cs\<rparr>))"
    using w(4) by simp
  show "m_conversationId (snd d) < nextId (s\<lparr>conversations := cs\<rparr>)"
    if "d \<in> set (messages (s\<lparr>conversations := cs\<rparr>))" for d
    using that wf_refs [OF assms(1), of d] by simp
qed

lemma wf_updateConversation:
  assumes "wf_db s" and "updateConversation auth c title s = Inr s'"
  shows "wf_db s'"
  using updateConversation_InrD [OF assms(2)] wf_conversations_upd [OF assms(1)] by auto

lemma wf_insert_message:
  assumes "wf_db s" and "m_conversationId d \<le> nextId s"
  shows "wf_db (s\<lparr>messages := messages s @ [(nextId s, d)], nextId := Suc (nextId s)\<rparr>)"
    (is "wf_db ?s'")
proof (rule wf_dbI)
  note w = wf_dbD [OF assms(1)]
  show "ids_ok (apiKeys ?s') (nextId ?s')" using w(1) by (simp add: ids_ok_mono)
  show "ids_ok (conversations ?s') (nextId ?s')" using w(2) by (simp add: ids_ok_mono)
  show "ids_ok (messages ?s') (nextId ?s')" using w(3) by (simp add: ids_ok_snoc)
  show "ids_ok (branches ?s') (nextId ?s')" using w(4) by (simp add: ids_ok_mono)
  show "m_conversationId (snd e) < nextId ?s'" if "e \<in> set (messages ?s')" for e
    using that wf_refs [OF assms(1), of e] assms(2) by auto
qed

lemma addMessage_fields:
  assumes "addMessage auth c content role p m s = Inr (i, s')"
  shows "map fst (conversations s') = map fst (conversations s)"
    and "c \<in> set (map fst (conversations s))"
    and "i = nextId s"
    and "messages s' = messages s @
           [(nextId s, \<lparr>m_conversationId = c, m_content = content, m_role = role,
                        m_provider = p, m_model = m,
                        m_messageIndex = length (messages_by_conversation c s),
                        m_parentMessageId = None\<rparr>)]"
    and "nextId s' = Suc (nextId s)"
    and "apiKeys s' = apiKeys s" and "branches s' = branches s"
proof -
  obtain u where u: "auth = Some u"
    using assms by (auto simp: addMessage_def split: option.splits)
  obtain conv where cv: "db_get c (conversations s) = Some conv" "c_userId conv = u"
    using addMessage_InrD [OF assms [unfolded u]] by blast
  note e = addMessage_eq [OF cv, of content role p m]
  show "map fst (conversations s') = map fst (conversations s)"
    using assms e by (auto simp: u map_fst_patched)
  show "c \<in> set (map fst (conversations s))" by (rule db_get_ids [OF cv(1)])
  show "i = nextId s" using assms e by (simp add: u)
  show "messages s' = messages s @
           [(nextId s, \<lparr>m_conversationId = c, m_content = content, m_role = role,
                        m_provider = p, m_model = m,
                        m_messageIndex = length (messages_by_conversation c s),
                        m_parentMessageId = None\<rparr>)]"
    using assms e by (auto simp: u)
  show "nextId s' = Suc (nextId s)" using assms e by (auto simp: u)
  show "apiKeys s' = apiKeys s" using assms e by (auto simp: u)
  show "branches s' = branches s" using assms e by (auto simp: u)
qed

lemma wf_addMessage:
  assumes "wf_db s" and "addMessage auth c content role p m s = Inr (i, s')"
  shows "wf_db s'"
proof (rule wf_dbI)
  note w = wf_dbD [OF assms(1)]
  note f = addMessage_fields [OF assms(2)]
  have c: "c < nextId s" using f(2) w(2) by (auto simp: ids_ok_def)
  show "ids_ok (apiKeys s') (nextId s')" using w(1) by (simp add: f ids_ok_mono)
  have "ids_ok (conversations s') (nextId s)"
    by (rule ids_ok_same_ids [OF f(1) w(2)])
  then show "ids_ok (conversations s') (nextId s')"
    by (rule ids_ok_mono) (simp add: f(5))
  show "ids_ok (messages s') (nextId s')" using w(3) by (simp add: f ids_ok_snoc)
  show "ids_ok (branches s') (nextId s')" using w(4) by (simp add: f ids_ok_mono)
  show "m_conversationId (snd d) < nextId s'" if "d \<in> set (messages s')" for d
    using that wf_refs [OF assms(1), of d] c by (auto simp: f)
qed

lemma createBranch_fields:
  assumes "createBranch auth p bm name s = Inr ((bid, bc), s')"
  defines "M \<equiv> filter (\<lambda>msg. m_messageIndex (snd msg)
                               \<le> m_messageIndex (the (db_get bm (messages s))))
                   (messages_by_conversation p s)"
  shows "(bm, the (db_get bm (messages s))) \<in> set (messages s)"
    and "m_conversationId (the (db_get bm (messages s))) = p"
    and "bc = nextId s"
    and "map fst (conversations s') = map fst (conversations s) @ [nextId s]"
    and "messages s' = messages s @ copies (nextId s) (Suc (nextId s)) M"
    and "map fst (branches s') = map fst (branches s) @ [bid]"
    and "bid = Suc (nextId s) + length M"
    and "nextId s' = Suc bid"
    and "apiKeys s' = apiKeys s"
  using assms(1) unfolding M_def
  by (auto simp: createBranch_def Let_def split_def messages_by_conversation_upd
      messagesToCopy_eq copy_messages_eq insert_branch_def insert_conversation_def
      db_get_def dest: map_of_SomeD split: option.splits if_splits)

lemma duplicateConversation_fields:
  assumes "duplicateConversation auth c s = Inr (i, s')"
  shows "i = nextId s"
    and "map fst (conversations s') = map fst (conversations s) @ [nextId s]"
    and "messages s' = messages s @
           copies (nextId s) (Suc (nextId s)) (messages_by_conversation c s)"
    and "branches s' = branches s"
    and "nextId s' = Suc (nextId s) + length (messages_by_conversation c s)"
    and "apiKeys s' = apiKeys s"
  using assms
  by (auto simp: duplicateConversation_def Let_def split_def messages_by_conversation_upd
      sortedMessages_eq copy_messages_eq insert_conversation_def
      split: option.splits if_splits)

lemma ids_ok_iff: "ids_ok t n \<longleftrightarrow> distinct (map fst t) \<and> (\<forall>i \<in> set (map fst t). i < n)"
  by (simp add: ids_ok_def)

lemma ids_ok_snoc_ids:
  assumes "ids_ok t n" and "map fst t' = map fst t @ [m]" and "n \<le> m" and "m < k"
  shows "ids_ok t' k"
  using assms unfolding ids_ok_iff by auto

lemma wf_copied:
  assumes "wf_db s"
    and "map fst (conversations s') = map fst (conversations s) @ [nextId s]"
    and "messages s' = messages s @ copies (nextId s) (Suc (nextId s)) M"
    and "branches s' = branches s
         \<or> (\<exists>b. map fst (branches s') = map fst (branches s) @ [b]
                  \<and> nextId s \<le> b \<and> b < nextId s')"
    and "Suc (nextId s) + length M \<le> nextId s'"
    and "apiKeys s' = apiKeys s"
  shows "wf_db s'"
proof (rule wf_dbI)
  note w = wf_dbD [OF assms(1)]
  have le: "nextId s \<le> nextId s'" using assms(5) by simp
  show "ids_ok (apiKeys s') (nextId s')"
    using w(1) le by (simp add: assms(6) ids_ok_mono)
  show "ids_ok (conversations s') (nextId s')"
    by (rule ids_ok_snoc_ids [OF w(2) assms(2) order_refl]) (use assms(5) in simp)
  have "ids_ok (messages s') (Suc (nextId s) + length M)"
    unfolding assms(3) by (rule ids_ok_copies [OF w(3)]) simp
  then show "ids_ok (messages s') (nextId s')"
    by (rule ids_ok_mono) (use assms(5) in simp)
  show "ids_ok (branches s') (nextId s')"
    using assms(4)
  proof
    assume "branches s' = branches s"
    then show ?thesis using w(4) le by (simp add: ids_ok_mono)
  next
    assume "\<exists>b. map fst (branches s') = map fst (branches s) @ [b]
                  \<and> nextId s \<le> b \<and> b < nextId s'"
    then obtain b where b: "map fst (branches s') = map fst (branches s) @ [b]"
      and lb: "nextId s \<le> b" and ub: "b < nextId s'" by blast
    show ?thesis by (rule ids_ok_snoc_ids [OF w(4) b lb ub])
  qed
  show "m_conversationId (snd d) < nextId s'" if "d \<in> set (messages s')" for d
  proof -
    from that have "d \<in> set (messages s) \<or> d \<in> set (copies (nextId s) (Suc (nextId s)) M)"
      by (simp add: assms(3))
    then show ?thesis
    proof
      assume "d \<in> set (messages s)"
      then show ?thesis using wf_refs [OF assms(1), of d] le by simp
    next
      assume "d \<in> set (copies (nextId s) (Suc (nextId s)) M)"
      then show ?thesis using set_copies_conv [of d] assms(5) by simp
    qed
  qed
qed

lemma wf_createBranch:
  assumes "wf_db s" and "createBranch auth p bm name s = Inr ((bid, bc), s')"
  shows "wf_db s'"
proof -
  note f = createBranch_fields [OF assms(2)]
  show ?thesis
    by (rule wf_copied [OF assms(1) f(4) f(5) _ _ f(9)]) (simp_all add: f(6,7,8))
qed

lemma wf_duplicateConversation:
  assumes "wf_db s" and "duplicateConversation auth c s = Inr (i, s')"
  shows "wf_db s'"
proof -
  note f = duplicateConversation_fields [OF assms(2)]
  show ?thesis
    by (rule wf_copied [OF assms(1) f(2) f(3) _ _ f(6)]) (simp_all add: f(4,5))
qed

lemma wf_deleteConversation:
  assumes "wf_db s" and "deleteConversation auth c s = Inr s'"
  shows "wf_db s'"
proof -
  obtain u where u: "auth = Some u"
    using assms(2) by (auto simp: deleteConversation_def split: option.splits)
  note f = deleteConversation_InrD [OF assms(2) [unfolded u] assms(1)]
  note w = wf_dbD [OF assms(1)]
  show ?thesis
  proof (rule wf_dbI)
    show "ids_ok (apiKeys s') (nextId s')" using w(1) by (simp add: f)
    show "ids_ok (conversations s') (nextId s')" using w(2) by (simp add: f ids_ok_filter)
    show "ids_ok (messages s') (nextId s')" using w(3) by (simp add: f ids_ok_filter)
    show "ids_ok (branches s') (nextId s')" using w(4) by (simp add: f ids_ok_filter)
    show "m_conversationId (snd d) < nextId s'" if "d \<in> set (messages s')" for d
      using that wf_refs [OF assms(1), of d] by (simp add: f)
  qed
qed

lemma db_patch_present:
  "i \<in> set (map fst t) \<Longrightarrow>
   db_patch i f t = Inr (map (\<lambda>d. if fst d = i then (i, f (snd d)) else d) t)"
  by (auto simp: db_patch_def map_of_eq_None_iff split: option.splits)

lemma deactivate_keys_eq:
  assumes "set (map fst ks) \<subseteq> set (map fst (apiKeys s))"
  shows "deactivate_keys ks s
           = Inr (s\<lparr>apiKeys :=
                      map (\<lambda>d. if fst d \<in> set (map fst ks)
                                then (fst d, (snd d)\<lparr>k_isActive := False\<rparr>) else d)
                        (apiKeys s)\<rparr>)"
  using assms
proof (induction ks arbitrary: s)
  case Nil
  show ?case by simp
next
  case (Cons key rest)
  let ?f = "\<lambda>k. k\<lparr>k_isActive := False\<rparr>"
  let ?t1 = "map (\<lambda>d. if fst d = fst key then (fst key, ?f (snd d)) else d) (apiKeys s)"
  let ?s1 = "s\<lparr>apiKeys := ?t1\<rparr>"
  have step: "patch_apiKey (fst key) ?f s = Inr ?s1"
    using Cons.prems by (simp add: patch_apiKey_def db_patch_present)
  have ids: "map fst (apiKeys ?s1) = map fst (apiKeys s)"
    by (simp add: map_fst_patched)
  have sub: "set (map fst rest) \<subseteq> set (map fst (apiKeys ?s1))"
    unfolding ids using Cons.prems by simp
  have "deactivate_keys (key # rest) s = deactivate_keys rest ?s1"
    by (simp add: step)
  also have "\<dots> = Inr (?s1\<lparr>apiKeys :=
                      map (\<lambda>d. if fst d \<in> set (map fst rest)
                                then (fst d, ?f (snd d)) else d) (apiKeys ?s1)\<rparr>)"
    by (rule Cons.IH [OF sub])
  also have "\<dots> = Inr (s\<lparr>apiKeys :=
                      map (\<lambda>d. if fst d \<in> set (map fst (key # rest))
                                then (fst d, ?f (snd d)) else d) (apiKeys s)\<rparr>)"
    by auto
  finally show ?case .
qed

lemma ids_filter_iff:
  assumes "distinct (map fst t)" and "d \<in> set t"
  shows "fst d \<in> set (map fst (filter P t)) \<longleftrightarrow> P d"
proof
  assume "fst d \<in> set (map fst (filter P t))"
  then obtain e where e: "e \<in> set t" "P e" "fst e = fst d" by auto
  have "inj_on fst (set t)" using assms(1) by (simp add: distinct_map)
  then have "e = d" using e assms(2) by (auto dest: inj_onD)
  then show "P d" using e by simp
next
  assume "P d"
  then show "fst d \<in> set (map fst (filter P t))" using assms(2) by force
qed

lemma saveApiKey_eq:
  assumes "distinct (map fst (apiKeys s))"
  shows "saveApiKey (Some u) p k s
           = Inr (nextId s,
                  s\<lparr>apiKeys := deactivated u p (apiKeys s) @
                        [(nextId s, \<lparr>k_userId = u, k_provider = p, k_apiKey = k,
                                     k_isActive = True\<rparr>)],
                    nextId := Suc (nextId s)\<rparr>)"
proof -
  let ?P = "\<lambda>d. k_userId (snd d) = u \<and> k_provider (snd d) = p"
  let ?ks = "filter (\<lambda>d. k_provider (snd d) = p) (apiKeys_by_user u s)"
  have ks: "?ks = filter ?P (apiKeys s)"
    by (simp add: apiKeys_by_user_def)
  have sub: "set (map fst ?ks) \<subseteq> set (map fst (apiKeys s))"
    unfolding ks by auto
  have m: "map (\<lambda>d. if fst d \<in> set (map fst ?ks)
                      then (fst d, (snd d)\<lparr>k_isActive := False\<rparr>) else d) (apiKeys s)
             = deactivated u p (apiKeys s)"
    unfolding deactivated_def ks
    by (rule map_cong [OF refl]) (simp only: ids_filter_iff [OF assms])
  have d: "deactivate_keys ?ks s = Inr (s\<lparr>apiKeys := deactivated u p (apiKeys s)\<rparr>)"
    using deactivate_keys_eq [OF sub] unfolding m .
  show ?thesis
    by (simp add: saveApiKey_def Let_def d insert_apiKey_def)
qed

lemma map_fst_deactivated: "map fst (deactivated u p t) = map fst t"
  by (induction t) (auto simp: deactivated_def)

lemma active_deactivated:
  "filter (\<lambda>d. k_userId (snd d) = u' \<and> k_provider (snd d) = p' \<and> k_isActive (snd d))
     (deactivated u p t)
   = (if u' = u \<and> p' = p then []
      else filter (\<lambda>d. k_userId (snd d) = u' \<and> k_provider (snd d) = p' \<and> k_isActive (snd d)) t)"
  by (induction t) (auto simp: deactivated_def)

lemma wf_apiKeys_upd:
  assumes "wf_db s" and "ids_ok ks n" and "nextId s \<le> n"
  shows "wf_db (s\<lparr>apiKeys := ks, nextId := n\<rparr>)" (is "wf_db ?s'")
proof (rule wf_dbI)
  note w = wf_dbD [OF assms(1)]
  show "ids_ok (apiKeys ?s') (nextId ?s')" using assms(2) by simp
  show "ids_ok (conversations ?s') (nextId ?s')" using w(2) assms(3) by (simp add: ids_ok_mono)
  show "ids_ok (messages ?s') (nextId ?s')" using w(3) assms(3) by (simp add: ids_ok_mono)
  show "ids_ok (branches ?s') (nextId ?s')" using w(4) assms(3) by (simp add: ids_ok_mono)
  show "m_conversationId (snd d) < nextId ?s'" if "d \<in> set (messages ?s')" for d
    using that wf_refs [OF assms(1), of d] assms(3) by simp
qed

lemma saveApiKey_fields:
  assumes "wf_db s" and "saveApiKey auth p k s = Inr (i, s')"
  shows "\<exists>u. auth = Some u
           \<and> apiKeys s' = deactivated u p (apiKeys s) @
                 [(nextId s, \<lparr>k_userId = u, k_provider = p, k_apiKey = k, k_isActive = True\<rparr>)]"
    and "messages s' = messages s" and "wf_db s'"
proof -
  obtain u where u: "auth = Some u"
    using assms(2) by (auto simp: saveApiKey_def split: option.splits)
  have d: "distinct (map fst (apiKeys s))"
    using wf_dbD(1) [OF assms(1)] by (simp add: ids_ok_def)
  let ?ks = "deactivated u p (apiKeys s) @
                 [(nextId s, \<lparr>k_userId = u, k_provider = p, k_apiKey = k, k_isActive = True\<rparr>)]"
  have s': "s' = s\<lparr>apiKeys := ?ks, nextId := Suc (nextId s)\<rparr>"
    using assms(2) saveApiKey_eq [OF d, of u p k] by (auto simp: u)
  show "\<exists>u. auth = Some u
           \<and> apiKeys s' = deactivated u p (apiKeys s) @
                 [(nextId s, \<lparr>k_userId = u, k_provider = p, k_apiKey = k, k_isActive = True\<rparr>)]"
    using u by (simp add: s')
  show "messages s' = messages s" by (simp add: s')
  have "ids_ok (deactivated u p (apiKeys s)) (nextId s)"
    by (rule ids_ok_same_ids [OF map_fst_deactivated wf_dbD(1) [OF assms(1)]])
  then have "ids_ok ?ks (Suc (nextId s))"
    by (rule ids_ok_snoc) simp
  then show "wf_db s'"
    unfolding s' by (rule wf_apiKeys_upd [OF assms(1)]) simp
qed

lemma deleteApiKey_fields:
  assumes "wf_db s" and "deleteApiKey auth i s = Inr s'"
  shows "apiKeys s' = filter (\<lambda>d. fst d \<noteq> i) (apiKeys s)"
    and "messages s' = messages s" and "wf_db s'"
proof -
  have s': "s' = s\<lparr>apiKeys := filter (\<lambda>d. fst d \<noteq> i) (apiKeys s), nextId := nextId s\<rparr>"
    using assms(2)
    by (auto simp: deleteApiKey_def delete_apiKey_def dest: db_delete_InrD
        split: option.splits if_splits sum.splits)
  show "apiKeys s' = filter (\<lambda>d. fst d \<noteq> i) (apiKeys s)" by (simp add: s')
  show "messages s' = messages s" by (simp add: s')
  have "ids_ok (filter (\<lambda>d. fst d \<noteq> i) (apiKeys s)) (nextId s)"
    by (rule ids_ok_filter [OF wf_dbD(1) [OF assms(1)]])
  then show "wf_db s'"
    unfolding s' by (rule wf_apiKeys_upd [OF assms(1)]) simp
qed

lemma length_messages_by_conversation:
  "length (messages_by_conversation c s) = length (indices c s)"
  by (simp add: messages_by_conversation_def indices_def)

lemma mset_messages_by_conversation:
  "mset (map (\<lambda>d. m_messageIndex (snd d)) (messages_by_conversation c s)) = mset (indices c s)"
proof -
  have "mset (messages_by_conversation c s)
          = mset (filter (\<lambda>d. m_conversationId (snd d) = c) (messages s))"
    by (simp add: messages_by_conversation_def)
  then have "image_mset (\<lambda>d. m_messageIndex (snd d)) (mset (messages_by_conversation c s))
          = image_mset (\<lambda>d. m_messageIndex (snd d))
              (mset (filter (\<lambda>d. m_conversationId (snd d) = c) (messages s)))"
    by simp
  then show ?thesis by (simp add: indices_def)
qed

lemma indices_cong: "messages s' = messages s \<Longrightarrow> indices c s' = indices c s"
  by (simp add: indices_def)

lemma dense_cong: "messages s' = messages s \<Longrightarrow> dense s \<Longrightarrow> dense s'"
  by (simp add: dense_def indices_def)

lemma single_active_cong: "apiKeys s' = apiKeys s \<Longrightarrow> single_active s \<Longrightarrow> single_active s'"
  by (simp add: single_active_def active_keys_def)

lemma indices_copies:
  assumes "messages s' = messages s @ copies target n M"
  shows "indices c s' = indices c s
           @ (if c = target then map (\<lambda>d. m_messageIndex (snd d)) M else [])"
proof -
  have "map (\<lambda>d. m_messageIndex (snd d)) (copies target n M)
          = map m_messageIndex (map snd (copies target n M))"
    by simp
  also have "\<dots> = map (\<lambda>d. m_messageIndex (snd d)) M"
    by (simp add: map_snd_copies copy_of_def)
  finally have m: "map (\<lambda>d. m_messageIndex (snd d)) (copies target n M)
                     = map (\<lambda>d. m_messageIndex (snd d)) M" .
  show ?thesis
    by (simp add: indices_def assms filter_copies_same filter_copies_other m)
qed

lemma filter_le_upt: "k < n \<Longrightarrow> filter (\<lambda>i. i \<le> k) [0 ..< n] = [0 ..< Suc k]"
proof (induction n)
  case 0
  then show ?case by simp
next
  case (Suc n)
  show ?case
  proof (cases "k < n")
    case True
    then show ?thesis using Suc.IH by simp
  next
    case False
    then have "k = n" using Suc.prems by simp
    moreover have "filter (\<lambda>i. i \<le> n) [0 ..< n] = [0 ..< n]"
      by (simp add: filter_id_conv)
    ultimately show ?thesis by simp
  qed
qed

lemma dense_prefix:
  assumes "mset xs = mset [0 ..< n]" and "k \<in> set xs"
  shows "mset (filter (\<lambda>i. i \<le> k) xs) = mset [0 ..< Suc k]"
proof -
  have "k \<in># mset xs" using assms(2) by simp
  then have "k \<in> set [0 ..< n]" unfolding assms(1) by simp
  then have k: "k < n" by simp
  have "mset (filter (\<lambda>i. i \<le> k) xs) = filter_mset (\<lambda>i. i \<le> k) (mset xs)"
    by simp
  also have "\<dots> = mset (filter (\<lambda>i. i \<le> k) [0 ..< n])"
    unfolding assms(1) by simp
  also have "\<dots> = mset [0 ..< Suc k]"
    by (simp only: filter_le_upt [OF k])
  finally show ?thesis .
qed

lemma dense_addMessage:
  assumes "dense s" and "addMessage auth c content role p m s = Inr (i, s')"
  shows "dense s'"
proof -
  note f = addMessage_fields [OF assms(2)]
  have ix: "indices c' s' = indices c' s @ (if c' = c then [length (indices c s)] else [])" for c'
    by (simp add: indices_def f(4) length_messages_by_conversation [unfolded indices_def])
  show ?thesis
    unfolding dense_def
  proof
    fix c'
    have d: "mset (indices c' s) = mset [0 ..< length (indices c' s)]"
      using assms(1) by (simp add: dense_def)
    show "mset (indices c' s') = mset [0 ..< length (indices c' s')]"
      unfolding ix using d by (simp del: mset_upt)
  qed
qed

lemma dense_copied:
  assumes "wf_db s" and "dense s"
    and "messages s' = messages s @ copies (nextId s) n M"
    and "mset (map (\<lambda>d. m_messageIndex (snd d)) M) = mset [0 ..< length M]"
  shows "dense s'"
  unfolding dense_def
proof
  fix c
  have d: "mset (indices c s) = mset [0 ..< length (indices c s)]"
    using assms(2) by (simp add: dense_def)
  have e: "indices (nextId s) s = []"
    using wf_no_future_messages [OF assms(1)] by (simp add: indices_def)
  show "mset (indices c s') = mset [0 ..< length (indices c s')]"
  proof (cases "c = nextId s")
    case True
    then show ?thesis
      unfolding indices_copies [OF assms(3)] using e assms(4) by (simp del: mset_upt)
  next
    case False
    then show ?thesis
      unfolding indices_copies [OF assms(3)] using d by (simp del: mset_upt)
  qed
qed

lemma map_index_filter:
  "map (\<lambda>d. m_messageIndex (snd d)) (filter (\<lambda>msg. m_messageIndex (snd msg) \<le> k) L)
     = filter (\<lambda>i. i \<le> k) (map (\<lambda>d. m_messageIndex (snd d)) L)"
  by (induction L) auto

lemma dense_createBranch:
  assumes "wf_db s" and "dense s" and "createBranch auth p bm name s = Inr ((bid, bc), s')"
  shows "dense s'"
proof -
  note f = createBranch_fields [OF assms(3)]
  let ?k = "m_messageIndex (the (db_get bm (messages s)))"
  let ?L = "messages_by_conversation p s"
  let ?M = "filter (\<lambda>msg. m_messageIndex (snd msg) \<le> ?k) ?L"
  have d: "mset (map (\<lambda>d. m_messageIndex (snd d)) ?L) = mset [0 ..< length (indices p s)]"
    unfolding mset_messages_by_conversation using assms(2) unfolding dense_def by blast
  have "?k \<in> set (indices p s)"
    using f(1,2) by (force simp: indices_def)
  then have "?k \<in># mset (map (\<lambda>d. m_messageIndex (snd d)) ?L)"
    unfolding mset_messages_by_conversation by simp
  then have kin: "?k \<in> set (map (\<lambda>d. m_messageIndex (snd d)) ?L)"
    by simp
  have pre: "mset (map (\<lambda>d. m_messageIndex (snd d)) ?M) = mset [0 ..< Suc ?k]"
    unfolding map_index_filter by (rule dense_prefix [OF d kin])
  have "length (map (\<lambda>d. m_messageIndex (snd d)) ?M) = length [0 ..< Suc ?k]"
    by (rule mset_eq_length [OF pre])
  then have len: "length ?M = Suc ?k" by simp
  show ?thesis
    by (rule dense_copied [OF assms(1,2) f(5)]) (simp only: pre len)
qed

lemma dense_duplicateConversation:
  assumes "wf_db s" and "dense s" and "duplicateConversation auth c s = Inr (i, s')"
  shows "dense s'"
proof -
  note f = duplicateConversation_fields [OF assms(3)]
  have "mset (map (\<lambda>d. m_messageIndex (snd d)) (messages_by_conversation c s))
          = mset [0 ..< length (messages_by_conversation c s)]"
    unfolding mset_messages_by_conversation length_messages_by_conversation
    using assms(2) unfolding dense_def by blast
  then show ?thesis
    by (rule dense_copied [OF assms(1,2) f(3)])
qed

lemma dense_deleteConversation:
  assumes "wf_db s" and "dense s" and "deleteConversation auth c s = Inr s'"
  shows "dense s'"
proof -
  obtain u where u: "auth = Some u"
    using assms(3) by (auto simp: deleteConversation_def split: option.splits)
  note f = deleteConversation_InrD [OF assms(3) [unfolded u] assms(1)]
  have ix: "indices c' s' = (if c' \<noteq> c \<and> c' \<notin> targets_of c s then indices c' s else [])" for c'
  proof (cases "c' \<noteq> c \<and> c' \<notin> targets_of c s")
    case True
    have "filter (\<lambda>d. m_conversationId (snd d) = c') (messages s')
            = filter (\<lambda>d. m_conversationId (snd d) = c') (messages s)"
      unfolding f(2) using True by (auto intro!: filter_cong)
    then show ?thesis using True by (simp add: indices_def)
  next
    case False
    have "filter (\<lambda>d. m_conversationId (snd d) = c') (messages s') = []"
      unfolding f(2) using False by (auto simp: filter_empty_conv)
    then show ?thesis using False by (auto simp: indices_def)
  qed
  show ?thesis
    unfolding dense_def
  proof
    fix c'
    have d: "mset (indices c' s) = mset [0 ..< length (indices c' s)]"
      using assms(2) by (simp add: dense_def)
    show "mset (indices c' s') = mset [0 ..< length (indices c' s')]"
      unfolding ix using d by (simp del: mset_upt)
  qed
qed

lemma consistent_empty_db: "consistent empty_db"
proof -
  have "dense empty_db" by (simp add: dense_def indices_def empty_db_def)
  moreover have "single_active empty_db"
    by (simp add: single_active_def active_keys_def empty_db_def)
  ultimately show ?thesis using wf_empty_db by (simp add: consistent_def)
qed

lemma createConversation_frame:
  assumes "createConversation auth title pb bm s = Inr (i, s')"
  shows "messages s' = messages s" and "apiKeys s' = apiKeys s"
  using assms
  by (auto simp: createConversation_def insert_conversation_def split: option.splits)

lemma updateConversation_frame:
  assumes "updateConversation auth c title s = Inr s'"
  shows "messages s' = messages s" and "apiKeys s' = apiKeys s"
  using updateConversation_InrD [OF assms] by auto

lemma consistent_createConversation:
  assumes "consistent s" and "createConversation auth title pb bm s = Inr (i, s')"
  shows "consistent s'"
  using assms wf_createConversation [OF _ assms(2)] createConversation_frame [OF assms(2)]
  by (auto simp: consistent_def intro: dense_cong single_active_cong)

lemma consistent_updateConversation:
  assumes "consistent s" and "updateConversation auth c title s = Inr s'"
  shows "consistent s'"
  using assms wf_updateConversation [OF _ assms(2)] updateConversation_frame [OF assms(2)]
  by (auto simp: consistent_def intro: dense_cong single_active_cong)

lemma consistent_addMessage:
  assumes "consistent s" and "addMessage auth c content role p m s = Inr (i, s')"
  shows "consistent s'"
  using assms wf_addMessage [OF _ assms(2)] dense_addMessage [OF _ assms(2)]
    addMessage_fields(6) [OF assms(2)]
  by (auto simp: consistent_def intro: single_active_cong)

lemma consistent_createBranch:
  assumes "consistent s" and "createBranch auth p bm name s = Inr ((bid, bc), s')"
  shows "consistent s'"
  using assms wf_createBranch [OF _ assms(2)] dense_createBranch [OF _ _ assms(2)]
    createBranch_fields(9) [OF assms(2)]
  by (auto simp: consistent_def intro: single_active_cong)

lemma consistent_duplicateConversation:
  assumes "consistent s" and "duplicateConversation auth c s = Inr (i, s')"
  shows "consistent s'"
  using assms wf_duplicateConversation [OF _ assms(2)]
    dense_duplicateConversation [OF _ _ assms(2)] duplicateConversation_fields(6) [OF assms(2)]
  by (auto simp: consistent_def intro: single_active_cong)

lemma consistent_deleteConversation:
  assumes "consistent s" and "deleteConversation auth c s = Inr s'"
  shows "consistent s'"
proof -
  have w: "wf_db s" using assms(1) by (simp add: consistent_def)
  obtain u where u: "auth = Some u"
    using assms(2) by (auto simp: deleteConversation_def split: option.splits)
  have k: "apiKeys s' = apiKeys s"
    by (rule deleteConversation_InrD(4) [OF assms(2) [unfolded u] w])
  show ?thesis
    using assms wf_deleteConversation [OF w assms(2)] dense_deleteConversation [OF w _ assms(2)] k
    by (auto simp: consistent_def intro: single_active_cong)
qed

lemma single_active_saveApiKey:
  assumes "single_active s"
    and "apiKeys s' = deactivated u p (apiKeys s) @
           [(n, \<lparr>k_userId = u, k_provider = p, k_apiKey = k, k_isActive = True\<rparr>)]"
  shows "single_active s'"
  unfolding single_active_def
proof (intro allI)
  fix u' p'
  have "length (active_keys u' p' s) \<le> 1"
    using assms(1) by (simp add: single_active_def)
  then show "length (active_keys u' p' s') \<le> 1"
    by (auto simp: active_keys_def assms(2) active_deactivated)
qed

lemma single_active_deleteApiKey:
  assumes "single_active s" and "apiKeys s' = filter (\<lambda>d. fst d \<noteq> i) (apiKeys s)"
  shows "single_active s'"
  unfolding single_active_def
proof (intro allI)
  fix u p
  have a: "length (active_keys u p s) \<le> 1"
    using assms(1) by (simp add: single_active_def)
  have "active_keys u p s' = filter (\<lambda>d. fst d \<noteq> i) (active_keys u p s)"
    by (auto simp: active_keys_def assms(2) intro!: filter_cong)
  then have "length (active_keys u p s') \<le> length (active_keys u p s)"
    by simp
  then show "length (active_keys u p s') \<le> 1" using a by simp
qed

lemma consistent_saveApiKey:
  assumes "consistent s" and "saveApiKey auth p k s = Inr (i, s')"
  shows "consistent s'"
proof -
  have w: "wf_db s" and d: "dense s" and a: "single_active s"
    using assms(1) by (simp_all add: consistent_def)
  note f = saveApiKey_fields [OF w assms(2)]
  obtain u where "apiKeys s' = deactivated u p (apiKeys s) @
                 [(nextId s, \<lparr>k_userId = u, k_provider = p, k_apiKey = k, k_isActive = True\<rparr>)]"
    using f(1) by blast
  then have "single_active s'" by (rule single_active_saveApiKey [OF a])
  then show ?thesis
    using f(3) dense_cong [OF f(2) d] by (simp add: consistent_def)
qed

lemma consistent_deleteApiKey:
  assumes "consistent s" and "deleteApiKey auth i s = Inr s'"
  shows "consistent s'"
proof -
  have w: "wf_db s" and d: "dense s" and a: "single_active s"
    using assms(1) by (simp_all add: consistent_def)
  note f = deleteApiKey_fields [OF w assms(2)]
  show ?thesis
    using f(3) dense_cong [OF f(2) d] single_active_deleteApiKey [OF a f(1)]
    by (simp add: consistent_def)
qed

lemma consistent_sendMessage:
  assumes "consistent s"
  shows "consistent (snd (sendMessage fetch auth c message p m s))"
  using assms
  by (auto simp: sendMessage_def split: option.splits sum.splits prod.splits
      intro: consistent_addMessage)

lemma consistent_apply_op: "consistent s \<Longrightarrow> consistent (apply_op op s)"
proof (cases op)
  case (SendMessage fetch auth c message p m)
  assume "consistent s"
  then show ?thesis unfolding SendMessage by (simp add: consistent_sendMessage)
qed (auto simp: committed_def committed'_def split: sum.splits
      intro: consistent_createConversation consistent_updateConversation consistent_addMessage
        consistent_createBranch consistent_deleteConversation consistent_duplicateConversation
        consistent_saveApiKey consistent_deleteApiKey)

lemma consistent_run: "consistent s \<Longrightarrow> consistent (run ops s)"
  unfolding run_def by (induction ops arbitrary: s) (simp_all add: consistent_apply_op)

lemma dense_sorted:
  assumes "dense s"
  shows "sort (indices c s) = [0 ..< length (indices c s)]"
proof (rule properties_for_sort)
  show "mset [0 ..< length (indices c s)] = mset (indices c s)"
    using assms unfolding dense_def by (rule_tac sym) blast
  show "sorted [0 ..< length (indices c s)]" by simp
qed

text \<open>C3: after any sequence of operations from the empty database, executed one after
  the other, the \<open>messageIndex\<close> values of the messages of any conversation, sorted, are
  \<open>0, 1, ..., n - 1\<close>, where \<open>n\<close> is the number of those messages.\<close>

theorem messageIndex_dense:
  "sort (indices c (run ops empty_db)) = [0 ..< length (indices c (run ops empty_db))]"
proof -
  have "consistent (run ops empty_db)"
    by (rule consistent_run [OF consistent_empty_db])
  then have "dense (run ops empty_db)" by (simp add: consistent_def)
  then show ?thesis by (rule dense_sorted)
qed

theorem messageIndex_dense_witness:
  "sort (indices 3 (run [CreateConversation (Some 7) ''New Conversation'' None None,
                         AddMessage (Some 7) 0 ''a'' ''user'' None None,
                         AddMessage (Some 7) 0 ''b'' ''assistant'' (Some ''openai'')
                           (Some ''gpt-4o-mini''),
                         CreateBranch (Some 7) 0 1 ''alt'',
                         AddMessage (Some 7) 3 ''c'' ''user'' None None] empty_db))
     = [0, 1]"
proof -
  let ?ops = "[CreateConversation (Some 7) ''New Conversation'' None None,
               AddMessage (Some 7) 0 ''a'' ''user'' None None,
               AddMessage (Some 7) 0 ''b'' ''assistant'' (Some ''openai'') (Some ''gpt-4o-mini''),
               CreateBranch (Some 7) 0 1 ''alt'',
               AddMessage (Some 7) 3 ''c'' ''user'' None None]"
  have "length (indices 3 (run ?ops empty_db)) = 2"
    by (simp add: op_defs indices_def)
  then show ?thesis
    using messageIndex_dense [of 3 ?ops] by (simp add: numeral_2_eq_2)
qed

text \<open>C6: after any sequence of operations from the empty database, a user has at most
  one active credential per provider; and \<open>saveApiKey\<close> in such a state succeeds, sets
  \<open>isActive\<close> to false on the stored credentials of exactly that user and provider, leaves
  every other credential as it is, deletes none, and appends the new active one.\<close>

theorem single_active_credential:
  "length (active_keys u p (run ops empty_db)) \<le> 1
   \<and> saveApiKey (Some u) p k (run ops empty_db)
       = Inr (nextId (run ops empty_db),
              (run ops empty_db)
                \<lparr>apiKeys := deactivated u p (apiKeys (run ops empty_db)) @
                    [(nextId (run ops empty_db),
                      \<lparr>k_userId = u, k_provider = p, k_apiKey = k, k_isActive = True\<rparr>)],
                 nextId := Suc (nextId (run ops empty_db))\<rparr>)"
proof -
  have c: "consistent (run ops empty_db)"
    by (rule consistent_run [OF consistent_empty_db])
  then have "single_active (run ops empty_db)" by (simp add: consistent_def)
  then have 1: "length (active_keys u p (run ops empty_db)) \<le> 1"
    by (simp add: single_active_def)
  have "wf_db (run ops empty_db)" using c by (simp add: consistent_def)
  then have "distinct (map fst (apiKeys (run ops empty_db)))"
    by (simp add: wf_db_def ids_ok_def)
  then show ?thesis using 1 by (simp add: saveApiKey_eq)
qed

theorem single_active_credential_witness:
  "map (\<lambda>d. (k_apiKey (snd d), k_isActive (snd d)))
     (apiKeys (run [SaveApiKey (Some 7) ''openai'' ''sk-1'',
                    SaveApiKey (Some 8) ''openai'' ''sk-o'',
                    SaveApiKey (Some 7) ''google'' ''g-1'',
                    SaveApiKey (Some 7) ''openai'' ''sk-2''] empty_db))
     = [(''sk-1'', False), (''sk-o'', True), (''g-1'', True), (''sk-2'', True)]"
proof -
  define s3 where "s3 = run [SaveApiKey (Some 7) ''openai'' ''sk-1'',
                              SaveApiKey (Some 8) ''openai'' ''sk-o'',
                              SaveApiKey (Some 7) ''google'' ''g-1''] empty_db"
  have r: "run [SaveApiKey (Some 7) ''openai'' ''sk-1'',
                SaveApiKey (Some 8) ''openai'' ''sk-o'',
                SaveApiKey (Some 7) ''google'' ''g-1'',
                SaveApiKey (Some 7) ''openai'' ''sk-2''] empty_db
             = committed (saveApiKey (Some 7) ''openai'' ''sk-2'' s3) s3"
    unfolding s3_def run_def by simp
  have k: "apiKeys s3
             = [(0, \<lparr>k_userId = 7, k_provider = ''openai'', k_apiKey = ''sk-1'', k_isActive = True\<rparr>),
                (1, \<lparr>k_userId = 8, k_provider = ''openai'', k_apiKey = ''sk-o'', k_isActive = True\<rparr>),
                (2, \<lparr>k_userId = 7, k_provider = ''google'', k_apiKey = ''g-1'', k_isActive = True\<rparr>)]"
    unfolding s3_def by (simp add: op_defs)
  have "saveApiKey (Some 7) ''openai'' ''sk-2'' s3
          = Inr (nextId s3,
                 s3\<lparr>apiKeys := deactivated 7 ''openai'' (apiKeys s3) @
                       [(nextId s3, \<lparr>k_userId = 7, k_provider = ''openai'', k_apiKey = ''sk-2'',
                                    k_isActive = True\<rparr>)],
                    nextId := Suc (nextId s3)\<rparr>)"
    using single_active_credential [of 7 "''openai''" _ "''sk-2''"] unfolding s3_def by blast
  then have "apiKeys (committed (saveApiKey (Some 7) ''openai'' ''sk-2'' s3) s3)
               = deactivated 7 ''openai'' (apiKeys s3) @
                       [(nextId s3, \<lparr>k_userId = 7, k_provider = ''openai'', k_apiKey = ''sk-2'',
                                    k_isActive = True\<rparr>)]"
    by (simp add: committed_def)
  then show ?thesis
    unfolding r k by (simp add: deactivated_def)
qed

text \<open>Every state reached from the empty database is well-formed, and the concrete
  states of the examples are such states.\<close>

lemma wf_reachable: "wf_db (run ops empty_db)"
  using consistent_run [OF consistent_empty_db, of ops] by (simp add: consistent_def)

lemma example_db_reachable:
  "example_db = run [SaveApiKey (Some 7) ''openai'' ''sk-1'',
                     SaveApiKey (Some 7) ''mistral'' ''sk-2'',
                     CreateConversation (Some 7) ''New Conversation'' None None] empty_db"
  by (simp add: example_db_def op_defs)

lemma chat_db_reachable:
  "chat_db = run [SaveApiKey (Some 7) ''openai'' ''sk-1'',
                  SaveApiKey (Some 7) ''openai'' ''sk-2'',
                  CreateConversation (Some 7) ''Sorting'' None None,
                  AddMessage (Some 7) 2 ''a'' ''user'' None None,
                  AddMessage (Some 7) 2 ''b'' ''assistant'' (Some ''openai'') (Some ''gpt-4o-mini''),
                  AddMessage (Some 7) 2 ''c'' ''user'' None None,
                  AddMessage (Some 7) 2 ''d'' ''assistant'' (Some ''openai'') (Some ''gpt-4o-mini''),
                  AddMessage (Some 7) 2 ''e'' ''user'' None None,
                  DeleteApiKey (Some 7) 0,
                  DeleteApiKey (Some 7) 1] empty_db"
  by (simp add: chat_db_def op_defs deleteApiKey_def delete_apiKey_def db_delete_def)

end
